theory Spec2Isabelle
  imports Main
begin

unbundle bit_operations_syntax

section \<open>Bytes, runes and the parts of the Go library the lexer calls\<close>

text \<open>
  A Go \<^verbatim>\<open>string\<close> is a sequence of bytes: it is modelled as a \<^typ>\<open>string\<close>, whose
  characters are 8-bit values. \<open>u8 c\<close> is the numeric value of the byte \<open>c\<close>. A
  \<^verbatim>\<open>rune\<close> is an \<^typ>\<open>int\<close>. Go's \<^verbatim>\<open>int\<close> offsets are far from overflowing on any
  string that fits in memory: the byte offsets, which index the input, are \<^typ>\<open>nat\<close>,
  and the rune and line counters are \<^typ>\<open>int\<close>.
\<close>

abbreviation u8 :: "char \<Rightarrow> nat" where
  "u8 c \<equiv> of_char c"

abbreviation TAB :: char where "TAB \<equiv> CHR 0x09"
abbreviation LF :: char where "LF \<equiv> CHR 0x0A"
abbreviation CR :: char where "CR \<equiv> CHR 0x0D"
abbreviation DQUOTE :: char where "DQUOTE \<equiv> CHR 0x22"
abbreviation BACKSLASH :: char where "BACKSLASH \<equiv> CHR 0x5C"

definition RuneError :: int where
  "RuneError = 0xFFFD"

text \<open>
  \<^verbatim>\<open>utf8.DecodeRuneInString\<close> of the Go standard library: the first rune of the string
  and its width in bytes; \<open>(RuneError, 0)\<close> on the empty string and \<open>(RuneError, 1)\<close> on
  an encoding that is invalid (a stray continuation byte, a truncated or overlong
  sequence, a surrogate, a value above U+10FFFF).
\<close>

fun DecodeRuneInString :: "string \<Rightarrow> int \<times> nat" where
  "DecodeRuneInString [] = (RuneError, 0)"
| "DecodeRuneInString (c0 # cs) =
    (let s0 = u8 c0 in
     if s0 < 0x80 then (int s0, 1)
     else if s0 < 0xC2 \<or> 0xF4 < s0 then (RuneError, 1)
     else
       let sz = (if s0 < 0xE0 then 2 else if s0 < 0xF0 then 3 else 4 :: nat);
           lo = (if s0 = 0xE0 then 0xA0 else if s0 = 0xF0 then 0x90 else 0x80 :: nat);
           hi = (if s0 = 0xED then 0x9F else if s0 = 0xF4 then 0x8F else 0xBF :: nat)
       in
       if length (c0 # cs) < sz then (RuneError, 1)
       else
         let s1 = u8 (cs ! 0) in
         if s1 < lo \<or> hi < s1 then (RuneError, 1)
         else if sz \<le> 2 then (int (push_bit 6 (s0 AND 0x1F) OR (s1 AND 0x3F)), 2)
         else
           let s2 = u8 (cs ! 1) in
           if s2 < 0x80 \<or> 0xBF < s2 then (RuneError, 1)
           else if sz \<le> 3 then
             (int (push_bit 12 (s0 AND 0x0F) OR push_bit 6 (s1 AND 0x3F) OR (s2 AND 0x3F)), 3)
           else
             let s3 = u8 (cs ! 2) in
             if s3 < 0x80 \<or> 0xBF < s3 then (RuneError, 1)
             else
               (int (push_bit 18 (s0 AND 0x07) OR push_bit 12 (s1 AND 0x3F)
                     OR push_bit 6 (s2 AND 0x3F) OR (s3 AND 0x3F)), 4))"

text \<open>
  \<^verbatim>\<open>utf8.AppendRune\<close>, which \<^verbatim>\<open>bytes.Buffer.WriteRune\<close> and the conversion
  \<^verbatim>\<open>string(r)\<close> of an integer use: the UTF-8 encoding of a rune, that of U+FFFD for a
  value that is no code point.
\<close>

definition EncodeRune :: "int \<Rightarrow> string" where
  "EncodeRune r0 =
    (let r = (if r0 < 0 \<or> 0x10FFFF < r0 \<or> (0xD800 \<le> r0 \<and> r0 \<le> 0xDFFF) then RuneError else r0) in
     if r \<le> 0x7F then [char_of r]
     else if r \<le> 0x7FF then
       [char_of (0xC0 OR drop_bit 6 r), char_of (0x80 OR (r AND 0x3F))]
     else if r \<le> 0xFFFF then
       [char_of (0xE0 OR drop_bit 12 r), char_of (0x80 OR (drop_bit 6 r AND 0x3F)),
        char_of (0x80 OR (r AND 0x3F))]
     else
       [char_of (0xF0 OR drop_bit 18 r), char_of (0x80 OR (drop_bit 12 r AND 0x3F)),
        char_of (0x80 OR (drop_bit 6 r AND 0x3F)), char_of (0x80 OR (r AND 0x3F))])"

text \<open>
  A rune of a string that is not empty has a width of at least one byte: the loops
  that advance by that width terminate.
\<close>

lemma DecodeRuneInString_width_pos: "str \<noteq> [] \<Longrightarrow> 0 < snd (DecodeRuneInString str)"
  by (cases str) (simp_all add: Let_def)

lemma DecodeRuneInString_shorter:
  "str \<noteq> [] \<Longrightarrow> (r, w) = DecodeRuneInString str \<Longrightarrow> length str - w < length str"
  using DecodeRuneInString_width_pos [of str] by (cases "DecodeRuneInString str") auto

text \<open>\<^verbatim>\<open>utf8.RuneCountInString\<close> and \<^verbatim>\<open>utf8.ValidString\<close>, by repeated decoding.\<close>

function RuneCountInString :: "string \<Rightarrow> nat" where
  "RuneCountInString str =
    (if str = [] then 0
     else Suc (RuneCountInString (drop (snd (DecodeRuneInString str)) str)))"
  by pat_completeness auto
termination
  by (relation "measure length") (auto simp: DecodeRuneInString_width_pos)

declare RuneCountInString.simps [simp del]

function ValidString :: "string \<Rightarrow> bool" where
  "ValidString str =
    (if str = [] then True
     else
       (case DecodeRuneInString str of (r, w) \<Rightarrow>
          \<not> (r = RuneError \<and> w = 1) \<and> ValidString (drop w str)))"
  by pat_completeness auto
termination
proof (relation "measure length")
  fix str :: string and r :: int and w :: nat
  assume "str \<noteq> []" and "(r, w) = DecodeRuneInString str"
  then have "0 < w"
    using DecodeRuneInString_width_pos [of str] by (cases "DecodeRuneInString str") auto
  with \<open>str \<noteq> []\<close> show "(drop w str, str) \<in> measure length" by simp
qed simp

declare ValidString.simps [simp del]

text \<open>The formatting verbs of \<^verbatim>\<open>fmt.Errorf\<close> that the lexer uses.\<close>

fun decimal :: "nat \<Rightarrow> string" where
  "decimal n = (if n < 10 then [char_of (48 + n)] else decimal (n div 10) @ [char_of (48 + n mod 10)])"

declare decimal.simps [simp del]

definition fmt_04d :: "nat \<Rightarrow> string" where
  \<comment> \<open>\<^verbatim>\<open>%04d\<close> of an unsigned value: decimal, padded with zeros to four characters\<close>
  "fmt_04d n = (let ds = decimal n in replicate (4 - length ds) (CHR ''0'') @ ds)"

definition string_of_byte :: "char \<Rightarrow> string" where
  \<comment> \<open>\<^verbatim>\<open>string(b)\<close> for a byte \<open>b\<close>: the UTF-8 encoding of the code point \<open>b\<close>\<close>
  "string_of_byte b = EncodeRune (int (u8 b))"

text \<open>
  \<open>index str i\<close> is \<^verbatim>\<open>str[i]\<close> and \<open>slice str lo hi\<close> is \<^verbatim>\<open>str[lo:hi]\<close> where the source
  does not guard them: out of range they panic, which is the value \<open>None\<close>.
\<close>

definition index :: "string \<Rightarrow> nat \<Rightarrow> char option" where
  "index str i = (if i < length str then Some (str ! i) else None)"

definition slice :: "string \<Rightarrow> nat \<Rightarrow> nat \<Rightarrow> string option" where
  "slice str lo hi = (if lo \<le> hi \<and> hi \<le> length str then Some (take (hi - lo) (drop lo str)) else None)"

section \<open>Tokens and the lexer state\<close>

text \<open>
  The token kinds. The declaration is not among the source files; the constructors are
  those \<^verbatim>\<open>lexer.go\<close> names (it writes \<^verbatim>\<open>BrackedR\<close>), the first being the zero value.
  \<open>IntT\<close> is the kind \<^verbatim>\<open>Int\<close>.
\<close>

datatype Type =
  Invalid | EOF | Bang | Dollar | Amp | ParenL | ParenR | Spread | Colon | Equals | At
  | BracketL | BrackedR | BraceL | BraceR | Pipe | Name | IntT | Float | String
  | BlockString | Comment

record Token =
  Kind :: Type
  Start :: int
  End :: int
  Value :: string
  Line :: int
  Column :: int

definition zeroToken :: Token where
  "zeroToken = \<lparr>Kind = Invalid, Start = 0, End = 0, Value = [], Line = 0, Column = 0\<rparr>"

text \<open>An \<^verbatim>\<open>error\<close> is its message; \<^verbatim>\<open>nil\<close> is \<open>None\<close>.\<close>

type_synonym error = "string option"

text \<open>The field \<^verbatim>\<open>end\<close> is \<open>endB\<close> here.\<close>

record Lexer =
  input :: string
  start :: nat
  startRunes :: int
  endB :: nat
  endRunes :: int
  line :: int
  lineStartRunes :: int
  peeked :: bool
  peekToken :: Token
  peekError :: error
  lastToken :: Token

text \<open>
  What a scanning function returns: \<open>None\<close> when it panics, else the token, the error and
  the lexer as the call leaves it.
\<close>

type_synonym result = "((Token \<times> error) \<times> Lexer) option"

definition New :: "string \<Rightarrow> Lexer" where
  "New inp =
    \<lparr>input = inp, start = 0, startRunes = 0, endB = 0, endRunes = 0, line = 1,
     lineStartRunes = 0, peeked = False, peekToken = zeroToken, peekError = None,
     lastToken = zeroToken\<rparr>"

definition peek :: "Lexer \<Rightarrow> int \<times> nat" where
  "peek s = DecodeRuneInString (drop (endB s) (input s))"

definition advance :: "nat \<Rightarrow> int \<Rightarrow> Lexer \<Rightarrow> Lexer" where
  \<comment> \<open>\<^verbatim>\<open>s.end += w; s.endRunes += n\<close>\<close>
  "advance w n s = s\<lparr>endB := endB s + w, endRunes := endRunes s + n\<rparr>"

definition retreat :: "nat \<Rightarrow> Lexer \<Rightarrow> Lexer" where
  \<comment> \<open>\<^verbatim>\<open>s.end -= n; s.endRunes -= n\<close>\<close>
  "retreat n s = s\<lparr>endB := endB s - n, endRunes := endRunes s - int n\<rparr>"

definition makeToken :: "Lexer \<Rightarrow> Type \<Rightarrow> (Token \<times> error) option" where
  "makeToken s kind =
    (case slice (input s) (start s) (endB s) of
       None \<Rightarrow> None
     | Some v \<Rightarrow>
         Some (\<lparr>Kind = kind, Start = startRunes s, End = endRunes s, Value = v, Line = line s,
                Column = startRunes s - lineStartRunes s + 1\<rparr>, None))"

definition makeError :: "Lexer \<Rightarrow> string \<Rightarrow> Token \<times> error" where
  "makeError s msg =
    (\<lparr>Kind = Invalid, Start = startRunes s, End = endRunes s, Value = [], Line = line s,
      Column = endRunes s - lineStartRunes s + 1\<rparr>, Some msg)"

definition emit :: "Lexer \<Rightarrow> Type \<Rightarrow> result" where
  \<comment> \<open>\<^verbatim>\<open>return s.makeToken(kind)\<close>\<close>
  "emit s kind = (case makeToken s kind of None \<Rightarrow> None | Some te \<Rightarrow> Some (te, s))"

definition fail :: "Lexer \<Rightarrow> string \<Rightarrow> result" where
  \<comment> \<open>\<^verbatim>\<open>return s.makeError(msg)\<close>, the message already formatted\<close>
  "fail s msg = Some (makeError s msg, s)"

definition LastToken :: "Lexer \<Rightarrow> Token" where
  "LastToken s = lastToken s"

section \<open>The scanner\<close>

text \<open>
  A loop of the source is a recursive function over its body; the body says whether the
  loop goes on, and with which state, or the function returns, and what.
\<close>

datatype ('a, 'b) flow = Continue 'a | Return 'b

subsection \<open>\<^verbatim>\<open>ws\<close>: whitespace, commas, line terminators and the byte order mark\<close>

definition newline :: "Lexer \<Rightarrow> Lexer" where
  \<comment> \<open>\<^verbatim>\<open>s.line++; s.lineStartRunes = s.endRunes\<close>\<close>
  "newline s = s\<lparr>line := line s + 1, lineStartRunes := endRunes s\<rparr>"

definition ws_body :: "Lexer \<Rightarrow> (Lexer, Lexer) flow" where
  "ws_body s =
    (let c = input s ! endB s in
     if c = TAB \<or> c = CHR '' '' \<or> c = CHR '','' then Continue (advance 1 1 s)
     else if c = LF then Continue (newline (advance 1 1 s))
     else if c = CR then
       (let s1 = newline (advance 1 1 s) in
        if endB s1 < length (input s1) \<and> input s1 ! endB s1 = LF then Continue (advance 1 1 s1)
        else Continue s1)
     else if c = CHR 0xEF then
       (if endB s + 2 < length (input s) \<and> input s ! (endB s + 1) = CHR 0xBB
           \<and> input s ! (endB s + 2) = CHR 0xBF
        then Continue (advance 3 1 s)
        else Return s)
     else Return s)"

lemma ws_body_shorter:
  "endB s < length (input s) \<Longrightarrow> ws_body s = Continue s' \<Longrightarrow>
   length (input s') - endB s' < length (input s) - endB s"
  by (auto simp: ws_body_def Let_def advance_def newline_def split: if_splits)

function ws :: "Lexer \<Rightarrow> Lexer" where
  "ws s =
    (if endB s < length (input s) then
       (case ws_body s of Continue s' \<Rightarrow> ws s' | Return s' \<Rightarrow> s')
     else s)"
  by pat_completeness auto
termination
  by (relation "measure (\<lambda>s. length (input s) - endB s)") (auto intro: ws_body_shorter)

declare ws.simps [simp del]

subsection \<open>\<^verbatim>\<open>readComment\<close> and \<^verbatim>\<open>readName\<close>\<close>

lemma peek_shorter:
  "endB s < length (input s) \<Longrightarrow>
   length (input s) - (endB s + snd (peek s)) < length (input s) - endB s"
  using DecodeRuneInString_width_pos [of "drop (endB s) (input s)"] by (simp add: peek_def)

function readComment_loop :: "Lexer \<Rightarrow> Lexer" where
  "readComment_loop s =
    (if endB s < length (input s) \<and> (0x1f < fst (peek s) \<or> fst (peek s) = 0x09)
     then readComment_loop (advance (snd (peek s)) 1 s)
     else s)"
  by pat_completeness auto
termination
  by (relation "measure (\<lambda>s. length (input s) - endB s)") (auto simp: advance_def intro: peek_shorter)

declare readComment_loop.simps [simp del]

definition readComment :: "Lexer \<Rightarrow> result" where
  "readComment s = emit (readComment_loop s) Comment"

definition nameRune :: "int \<Rightarrow> bool" where
  "nameRune r \<longleftrightarrow>
    (0x30 \<le> r \<and> r \<le> 0x39) \<or> (0x41 \<le> r \<and> r \<le> 0x5A) \<or> (0x61 \<le> r \<and> r \<le> 0x7A) \<or> r = 0x5F"

function readName_loop :: "Lexer \<Rightarrow> Lexer" where
  "readName_loop s =
    (if endB s < length (input s) \<and> nameRune (fst (peek s))
     then readName_loop (advance (snd (peek s)) 1 s)
     else s)"
  by pat_completeness auto
termination
  by (relation "measure (\<lambda>s. length (input s) - endB s)") (auto simp: advance_def intro: peek_shorter)

declare readName_loop.simps [simp del]

definition readName :: "Lexer \<Rightarrow> result" where
  "readName s = emit (readName_loop s) Name"

subsection \<open>\<^verbatim>\<open>readNumber\<close> and its helpers\<close>

definition acceptByte :: "char list \<Rightarrow> Lexer \<Rightarrow> bool \<times> Lexer" where
  "acceptByte bytes s =
    (if length (input s) \<le> endB s then (False, s)
     else if input s ! endB s \<in> set bytes then (True, advance 1 1 s)
     else (False, s))"

definition digit :: "char \<Rightarrow> bool" where
  "digit c \<longleftrightarrow> 0x30 \<le> u8 c \<and> u8 c \<le> 0x39"

function acceptDigits_loop :: "nat \<Rightarrow> Lexer \<Rightarrow> nat \<times> Lexer" where
  "acceptDigits_loop consumed s =
    (if endB s < length (input s) \<and> digit (input s ! endB s)
     then acceptDigits_loop (consumed + 1) (advance 1 1 s)
     else (consumed, s))"
  by pat_completeness auto
termination
  by (relation "measure (\<lambda>(consumed, s). length (input s) - endB s)") (auto simp: advance_def)

declare acceptDigits_loop.simps [simp del]

definition acceptDigits :: "Lexer \<Rightarrow> nat \<times> Lexer" where
  "acceptDigits s = acceptDigits_loop 0 s"

definition describeNext :: "Lexer \<Rightarrow> string" where
  "describeNext s =
    (if endB s < length (input s) then [DQUOTE] @ string_of_byte (input s ! endB s) @ [DQUOTE]
     else ''<EOF>'')"

definition expectedDigit :: "Lexer \<Rightarrow> result" where
  \<comment> \<open>\<^verbatim>\<open>return s.makeError("Invalid number, expected digit but got: %s.", s.describeNext())\<close>\<close>
  "expectedDigit s =
    fail s (''Invalid number, expected digit but got: '' @ describeNext s @ ''.'')"

definition readNumber_exponent :: "bool \<Rightarrow> Lexer \<Rightarrow> result" where
  \<comment> \<open>from \<^verbatim>\<open>if s.acceptByte('e', 'E')\<close> to the end of \<^verbatim>\<open>readNumber\<close>\<close>
  "readNumber_exponent float s =
    (case acceptByte ''eE'' s of
       (True, s1) \<Rightarrow>
         (case acceptDigits (snd (acceptByte ''-+'' s1)) of (consumed, s2) \<Rightarrow>
            if consumed = 0 then expectedDigit s2
            else emit s2 Float)
     | (False, s1) \<Rightarrow> emit s1 (if float then Float else IntT))"

definition readNumber_fraction :: "Lexer \<Rightarrow> result" where
  \<comment> \<open>from \<^verbatim>\<open>if s.acceptByte('.')\<close> on\<close>
  "readNumber_fraction s =
    (case acceptByte ''.'' s of
       (True, s1) \<Rightarrow>
         (case acceptDigits s1 of (consumed, s2) \<Rightarrow>
            if consumed = 0 then expectedDigit s2 else readNumber_exponent True s2)
     | (False, s1) \<Rightarrow> readNumber_exponent False s1)"

definition readNumber :: "Lexer \<Rightarrow> result" where
  "readNumber s0 =
    (let s1 = retreat 1 s0;
         s2 = snd (acceptByte ''-'' s1)
     in case acceptByte ''0'' s2 of
          (True, s3) \<Rightarrow>
            (case acceptDigits s3 of (consumed, s4) \<Rightarrow>
               if consumed \<noteq> 0 then
                 (let s5 = retreat consumed s4 in
                  fail s5 (''Invalid number, unexpected digit after 0: '' @ describeNext s5 @ ''.''))
               else readNumber_fraction s4)
        | (False, s3) \<Rightarrow>
            (case acceptDigits s3 of (consumed, s4) \<Rightarrow>
               if consumed = 0 then expectedDigit s4 else readNumber_fraction s4))"

subsection \<open>\<^verbatim>\<open>unhex\<close> and \<^verbatim>\<open>readString\<close>\<close>

text \<open>\<^verbatim>\<open>range\<close> decodes the string rune by rune.\<close>

definition hexValue :: "int \<Rightarrow> int option" where
  \<comment> \<open>the \<^verbatim>\<open>switch\<close> of \<^verbatim>\<open>unhex\<close>: the value of a hexadecimal digit, \<open>None\<close> in the default case\<close>
  "hexValue c =
    (if 0x30 \<le> c \<and> c \<le> 0x39 then Some (c - 0x30)
     else if 0x61 \<le> c \<and> c \<le> 0x66 then Some (c - 0x61 + 10)
     else if 0x41 \<le> c \<and> c \<le> 0x46 then Some (c - 0x41 + 10)
     else None)"

function unhex_loop :: "int \<Rightarrow> string \<Rightarrow> int \<times> bool" where
  "unhex_loop v b =
    (if b = [] then (v, True)
     else
       (case hexValue (fst (DecodeRuneInString b)) of
          None \<Rightarrow> (0, False)
        | Some d \<Rightarrow> unhex_loop (push_bit 4 v OR d) (drop (snd (DecodeRuneInString b)) b)))"
  by pat_completeness auto
termination
  by (relation "measure (\<lambda>(v, b). length b)") (auto simp: DecodeRuneInString_width_pos)

declare unhex_loop.simps [simp del]

definition unhex :: "string \<Rightarrow> int \<times> bool" where
  "unhex b = unhex_loop 0 b"

text \<open>
  The buffer pointer \<^verbatim>\<open>buf\<close> of \<^verbatim>\<open>readString\<close> is \<open>None\<close> while it is \<^verbatim>\<open>nil\<close>. The loop is
  entered with the opening quote skipped.
\<close>

definition escapeError :: "Lexer \<Rightarrow> string \<Rightarrow> result" where
  \<comment> \<open>\<^verbatim>\<open>s.end++; s.endRunes++; return s.makeError("Invalid character escape sequence: \\%s.", arg)\<close>\<close>
  "escapeError s arg =
    fail (advance 1 1 s) (''Invalid character escape sequence: '' @ [BACKSLASH] @ arg @ ''.'')"

definition invalidInString :: "Lexer \<Rightarrow> char \<Rightarrow> result" where
  \<open>invalidInString s r =
    fail s (''Invalid character within String: "'' @ [BACKSLASH] @ ''u'' @ fmt_04d (u8 r) @ ''".'')\<close>

definition nextRune :: "Lexer \<Rightarrow> char \<Rightarrow> int \<times> nat" where
  \<comment> \<open>\<^verbatim>\<open>char, w := rune(r), 1\<close>, decoded when \<^verbatim>\<open>r >= 127\<close>\<close>
  "nextRune s r = (if 127 \<le> u8 r then DecodeRuneInString (drop (endB s) (input s)) else (int (u8 r), 1))"

definition simpleEscape :: "char \<Rightarrow> char option" where
  \<comment> \<open>the inner \<^verbatim>\<open>switch escape\<close>: the byte written, \<open>None\<close> in the default case\<close>
  "simpleEscape escape =
    (if escape = DQUOTE \<or> escape = CHR ''/'' \<or> escape = BACKSLASH then Some escape
     else if escape = CHR ''b'' then Some (CHR 0x08)
     else if escape = CHR ''f'' then Some (CHR 0x0C)
     else if escape = CHR ''n'' then Some LF
     else if escape = CHR ''r'' then Some CR
     else if escape = CHR ''t'' then Some TAB
     else None)"

definition writeRune :: "string option \<Rightarrow> int \<Rightarrow> string option" where
  \<comment> \<open>\<^verbatim>\<open>if buf != nil { buf.WriteRune(char) }\<close>\<close>
  "writeRune buf char = (case buf of None \<Rightarrow> None | Some b \<Rightarrow> Some (b @ EncodeRune char))"

definition readString_body :: "Lexer \<Rightarrow> string option \<Rightarrow> (Lexer \<times> string option, result) flow" where
  "readString_body s buf =
    (let r = input s ! endB s in
     if r = LF \<or> r = CR then Return (fail s ''Unterminated string.'')
     else if u8 r < 0x20 \<and> r \<noteq> TAB then Return (invalidInString s r)
     else if r = DQUOTE then
       Return
         (case makeToken s String of
            None \<Rightarrow> None
          | Some (t, err) \<Rightarrow>
              let t1 = t\<lparr>Start := Start t - 1, End := End t + 1\<rparr>;
                  t2 = (case buf of None \<Rightarrow> t1 | Some b \<Rightarrow> t1\<lparr>Value := b\<rparr>)
              in Some ((t2, err), advance 1 1 s))
     else if r = BACKSLASH then
       (if length (input s) \<le> endB s + 1 then
          Return (fail (advance 1 1 s) ''Invalid character escape sequence.'')
        else
          (case (case buf of None \<Rightarrow> slice (input s) (start s) (endB s) | Some b \<Rightarrow> Some b) of
             None \<Rightarrow> Return None
           | Some b \<Rightarrow>
               let escape = input s ! (endB s + 1) in
               if escape = CHR ''u'' then
                 (if length (input s) \<le> endB s + 6 then
                    Return (escapeError s (drop (endB s + 1) (input s)))
                  else
                    (case unhex (take 4 (drop (endB s + 2) (input s))) of
                       (x, ok) \<Rightarrow>
                         if \<not> ok then Return (escapeError s (take 5 (drop (endB s + 1) (input s))))
                         else Continue (advance 6 6 s, Some (b @ EncodeRune x))))
               else
                 (case simpleEscape escape of
                    None \<Rightarrow> Return (escapeError s (string_of_byte escape))
                  | Some c \<Rightarrow> Continue (advance 2 2 s, Some (b @ [c])))))
     else
       (case nextRune s r of (char, w) \<Rightarrow> Continue (advance w 1 s, writeRune buf char)))"

lemma nextRune_width_pos: "endB s < length (input s) \<Longrightarrow> 0 < snd (nextRune s r)"
  using DecodeRuneInString_width_pos [of "drop (endB s) (input s)"] by (simp add: nextRune_def)

lemma readString_body_shorter:
  "endB s < length (input s) \<Longrightarrow> readString_body s buf = Continue (s', buf') \<Longrightarrow>
   length (input s') - endB s' < length (input s) - endB s"
  using nextRune_width_pos [of s "input s ! endB s"]
  by (auto simp: readString_body_def Let_def advance_def
           split: if_splits option.splits prod.splits)

function readString_loop :: "Lexer \<Rightarrow> string option \<Rightarrow> result" where
  "readString_loop s buf =
    (if endB s < length (input s) then
       (case readString_body s buf of
          Continue (s', buf') \<Rightarrow> readString_loop s' buf'
        | Return res \<Rightarrow> res)
     else fail s ''Unterminated string.'')"
  by pat_completeness auto
termination
  by (relation "measure (\<lambda>(s, buf). length (input s) - endB s)")
    (auto intro: readString_body_shorter)

declare readString_loop.simps [simp del]

definition readString :: "Lexer \<Rightarrow> result" where
  "readString s = readString_loop (s\<lparr>start := start s + 1, startRunes := startRunes s + 1\<rparr>) None"

subsection \<open>\<^verbatim>\<open>readBlockString\<close>\<close>

text \<open>
  \<open>blockStringValue\<close> is the function of that name, which is not among the source files:
  the scanner takes it as a parameter.
\<close>

definition readBlockString_body ::
  "(string \<Rightarrow> string) \<Rightarrow> Lexer \<Rightarrow> string \<Rightarrow> (Lexer \<times> string, result) flow" where
  \<open>readBlockString_body blockStringValue s buf =
    (let r = input s ! endB s in
     if r = DQUOTE \<and> endB s + 3 \<le> length (input s) \<and> take 3 (drop (endB s) (input s)) = ''"""'' then
       Return
         (case makeToken s BlockString of
            None \<Rightarrow> None
          | Some (t, err) \<Rightarrow>
              Some ((t\<lparr>Start := Start t - 3, End := End t + 3, Value := blockStringValue buf\<rparr>, err),
                    advance 3 3 s))
     else if u8 r < 0x20 \<and> r \<noteq> TAB \<and> r \<noteq> LF \<and> r \<noteq> CR then Return (invalidInString s r)
     else if r = BACKSLASH \<and> endB s + 4 \<le> length (input s)
             \<and> take 4 (drop (endB s) (input s)) = [BACKSLASH] @ ''"""'' then
       Continue (advance 4 4 s, buf @ ''"""'')
     else if r = CR then
       (if endB s + 1 \<le> length (input s) then
          (case index (input s) (endB s + 1) of
             None \<Rightarrow> Return None
           | Some c \<Rightarrow>
               if c = LF then Continue (advance 1 1 (advance 1 1 s), buf @ [LF])
               else Continue (advance 1 1 s, buf @ [LF]))
        else Continue (advance 1 1 s, buf @ [LF]))
     else
       (case nextRune s r of (char, w) \<Rightarrow> Continue (advance w 1 s, buf @ EncodeRune char)))\<close>

lemma readBlockString_body_shorter:
  "endB s < length (input s) \<Longrightarrow> readBlockString_body f s buf = Continue (s', buf') \<Longrightarrow>
   length (input s') - endB s' < length (input s) - endB s"
  using nextRune_width_pos [of s "input s ! endB s"]
  by (auto simp: readBlockString_body_def Let_def advance_def
           split: if_splits option.splits prod.splits)

function readBlockString_loop :: "(string \<Rightarrow> string) \<Rightarrow> Lexer \<Rightarrow> string \<Rightarrow> result" where
  "readBlockString_loop blockStringValue s buf =
    (if endB s < length (input s) then
       (case readBlockString_body blockStringValue s buf of
          Continue (s', buf') \<Rightarrow> readBlockString_loop blockStringValue s' buf'
        | Return res \<Rightarrow> res)
     else fail s ''Unterminated string.'')"
  by pat_completeness auto
termination
  by (relation "measure (\<lambda>(f, s, buf). length (input s) - endB s)")
    (auto intro: readBlockString_body_shorter)

declare readBlockString_loop.simps [simp del]

definition readBlockString :: "(string \<Rightarrow> string) \<Rightarrow> Lexer \<Rightarrow> result" where
  "readBlockString blockStringValue s =
    readBlockString_loop blockStringValue
      (advance 2 2 (s\<lparr>start := start s + 3, startRunes := startRunes s + 3\<rparr>)) []"

text \<open>
  \<^verbatim>\<open>ReadToken\<close>. \<open>setLast\<close> is the deferred function, which stores the returned token
  in \<^verbatim>\<open>lastToken\<close>. \<open>unexpectedCharacter\<close> is the code after the \<^verbatim>\<open>switch\<close>, which a byte
  that starts no token reaches, and also a dot that does not start \<^verbatim>\<open>...\<close>.
\<close>

definition setLast :: "result \<Rightarrow> result" where
  "setLast res =
    (case res of None \<Rightarrow> None | Some ((token, err), s) \<Rightarrow> Some ((token, err), s\<lparr>lastToken := token\<rparr>))"

definition unexpectedCharacter :: "char \<Rightarrow> Lexer \<Rightarrow> result" where
  \<open>unexpectedCharacter r s0 =
    (let s = retreat 1 s0 in
     if u8 r < 0x20 \<and> r \<noteq> TAB \<and> r \<noteq> LF \<and> r \<noteq> CR then
       fail s (''Cannot contain the invalid character "'' @ [BACKSLASH] @ ''u'' @ fmt_04d (u8 r) @ ''"'')
     else if r = CHR 0x27 then
       fail s (''Unexpected single quote character ('' @ [CHR 0x27]
               @ ''), did you mean to use a double quote (")?'')
     else fail s (''Cannot parse the unexpected character "'' @ string_of_byte r @ ''".''))\<close>

definition nameStart :: "char \<Rightarrow> bool" where
  \<comment> \<open>the \<^verbatim>\<open>case '_', 'a', ..., 'Z'\<close> of the \<^verbatim>\<open>switch\<close>\<close>
  "nameStart r \<longleftrightarrow> r \<in> set ''_abcdefghijklmnopqrstuvwxyzABCDEFGHIJKLMNOPQRSTUVWXYZ''"

definition numberStart :: "char \<Rightarrow> bool" where
  \<comment> \<open>the \<^verbatim>\<open>case '-', '0', ..., '9'\<close> of the \<^verbatim>\<open>switch\<close>\<close>
  "numberStart r \<longleftrightarrow> r \<in> set ''-0123456789''"

definition dispatch :: "(string \<Rightarrow> string) \<Rightarrow> char \<Rightarrow> Lexer \<Rightarrow> result" where
  \<comment> \<open>the cases of the \<^verbatim>\<open>switch\<close> from \<^verbatim>\<open>'$'\<close> on, and the code after it\<close>
  \<open>dispatch blockStringValue r s =
    (if r = CHR ''$'' then emit s Dollar
     else if r = CHR ''&'' then emit s Amp
     else if r = CHR ''('' then emit s ParenL
     else if r = CHR '')'' then emit s ParenR
     else if r = CHR ''.'' then
       (if start s + 2 < length (input s) \<and> take 3 (drop (start s) (input s)) = ''...''
        then emit (advance 2 2 s) Spread
        else unexpectedCharacter r s)
     else if r = CHR '':'' then emit s Colon
     else if r = CHR ''='' then emit s Equals
     else if r = CHR ''@'' then emit s At
     else if r = CHR ''['' then emit s BracketL
     else if r = CHR '']'' then emit s BrackedR
     else if r = CHR ''{'' then emit s BraceL
     else if r = CHR ''}'' then emit s BraceR
     else if r = CHR ''|'' then emit s Pipe
     else if nameStart r then readName s
     else if numberStart r then readNumber s
     else if r = DQUOTE then
       (if start s + 2 < length (input s) \<and> take 3 (drop (start s) (input s)) = ''"""''
        then readBlockString blockStringValue s
        else readString s)
     else unexpectedCharacter r s)\<close>

definition beginToken :: "Lexer \<Rightarrow> Lexer" where
  \<comment> \<open>\<^verbatim>\<open>s.ws(); s.start = s.end; s.startRunes = s.endRunes\<close>\<close>
  "beginToken s = (let s1 = ws s in s1\<lparr>start := endB s1, startRunes := endRunes s1\<rparr>)"

function ReadToken :: "(string \<Rightarrow> string) \<Rightarrow> Lexer \<Rightarrow> result" where
  "ReadToken blockStringValue s =
    (if peeked s then setLast (Some ((peekToken s, peekError s), s\<lparr>peeked := False\<rparr>))
     else if length (input (beginToken s)) \<le> endB (beginToken s) then setLast (emit (beginToken s) EOF)
     else if input (beginToken s) ! start (beginToken s) = CHR ''!'' then
       setLast (emit (advance 1 1 (beginToken s)) Bang)
     else if input (beginToken s) ! start (beginToken s) = CHR ''#'' then
       (case readComment (advance 1 1 (beginToken s)) of
          None \<Rightarrow> None
        | Some (comment, s') \<Rightarrow> setLast (ReadToken blockStringValue s'))
     else
       setLast (dispatch blockStringValue (input (beginToken s) ! start (beginToken s))
                  (advance 1 1 (beginToken s))))"
  by pat_completeness auto

definition PeekToken :: "(string \<Rightarrow> string) \<Rightarrow> Lexer \<Rightarrow> (Token \<times> Lexer) option" where
  "PeekToken blockStringValue s =
    (if \<not> peeked s then
       (case ReadToken blockStringValue s of
          None \<Rightarrow> None
        | Some ((token, err), s1) \<Rightarrow>
            Some (token, s1\<lparr>peekToken := token, peekError := err, peeked := True\<rparr>))
     else Some (peekToken s, s))"

section \<open>Termination of \<^verbatim>\<open>ReadToken\<close>\<close>

text \<open>
  The recursive call after a comment starts behind the \<^verbatim>\<open>#\<close>: no scanning loop moves
  the cursor back or changes the input.
\<close>

lemma ws_body_frame:
  "endB s < length (input s) \<Longrightarrow> ws_body s = Continue s' \<Longrightarrow> input s' = input s \<and> endB s \<le> endB s'"
  by (auto simp: ws_body_def Let_def advance_def newline_def split: if_splits)

lemma ws_body_Return: "ws_body s = Return s' \<Longrightarrow> s' = s"
  by (auto simp: ws_body_def Let_def split: if_splits)

lemma ws_frame: "input (ws s) = input s \<and> endB s \<le> endB (ws s)"
proof (induction s rule: ws.induct)
  case (1 s)
  show ?case
  proof (cases "endB s < length (input s)")
    case False
    then show ?thesis by (simp add: ws.simps [of s])
  next
    case True
    show ?thesis
    proof (cases "ws_body s")
      case (Continue s')
      with True "1.IH" [of s'] ws_body_frame [of s s'] show ?thesis
        by (simp add: ws.simps [of s])
    next
      case (Return s')
      with True ws_body_Return [of s s'] show ?thesis
        by (simp add: ws.simps [of s])
    qed
  qed
qed

lemma beginToken_frame: "input (beginToken s) = input s \<and> endB s \<le> endB (beginToken s)"
  using ws_frame [of s] by (simp add: beginToken_def Let_def)

lemma readComment_loop_frame:
  "input (readComment_loop s) = input s \<and> endB s \<le> endB (readComment_loop s)"
proof (induction s rule: readComment_loop.induct)
  case (1 s)
  show ?case
  proof (cases "endB s < length (input s) \<and> (0x1f < fst (peek s) \<or> fst (peek s) = 0x09)")
    case False
    then show ?thesis by (auto simp add: readComment_loop.simps [of s])
  next
    case True
    with "1.IH" have "input (readComment_loop (advance (snd (peek s)) 1 s)) = input s"
      and "endB s + snd (peek s) \<le> endB (readComment_loop (advance (snd (peek s)) 1 s))"
      by (simp_all add: advance_def)
    with True show ?thesis
      by (simp add: readComment_loop.simps [of s])
  qed
qed

lemma readComment_frame:
  "readComment s = Some (te, s') \<Longrightarrow> input s' = input s \<and> endB s \<le> endB s'"
  using readComment_loop_frame [of s]
  by (auto simp: readComment_def emit_def split: option.splits)

termination ReadToken
proof (relation "measure (\<lambda>(f, s). length (input s) - endB s)")
  fix f :: "string \<Rightarrow> string" and s s' :: Lexer and x :: "(Token \<times> error) \<times> Lexer"
    and comment :: "Token \<times> error"
  assume a: "\<not> length (input (beginToken s)) \<le> endB (beginToken s)"
    "readComment (advance 1 1 (beginToken s)) = Some x" "(comment, s') = x"
  from a(2,3) have "readComment (advance 1 1 (beginToken s)) = Some (comment, s')" by simp
  from readComment_frame [OF this] beginToken_frame [of s] a(1)
  have "input s' = input s" and "endB s < endB s'" and "endB s < length (input s)"
    by (simp_all add: advance_def)
  then show "((f, s'), (f, s)) \<in> measure (\<lambda>(f, s). length (input s) - endB s)"
    by simp
qed simp

declare ReadToken.simps [simp del]

section \<open>Sequences of calls\<close>

text \<open>
  \<open>steps f s0 s\<close>: the lexer is in state \<open>s\<close> after some calls of \<^verbatim>\<open>ReadToken\<close> and
  \<^verbatim>\<open>PeekToken\<close> that all returned, begun in state \<open>s0\<close>. A state is reachable over an
  input when the calls begin with \<^verbatim>\<open>New\<close>.
\<close>

inductive steps :: "(string \<Rightarrow> string) \<Rightarrow> Lexer \<Rightarrow> Lexer \<Rightarrow> bool" for f :: "string \<Rightarrow> string" and s0 :: Lexer where
  here: "steps f s0 s0"
| read: "steps f s0 s \<Longrightarrow> ReadToken f s = Some (r, s') \<Longrightarrow> steps f s0 s'"
| peek: "steps f s0 s \<Longrightarrow> PeekToken f s = Some (t, s') \<Longrightarrow> steps f s0 s'"

definition reachable :: "(string \<Rightarrow> string) \<Rightarrow> string \<Rightarrow> Lexer \<Rightarrow> bool" where
  "reachable f inp s \<longleftrightarrow> steps f (New inp) s"

text \<open>What no scanning function writes: the input and the cache of \<^verbatim>\<open>PeekToken\<close>.\<close>

definition cache :: "Lexer \<Rightarrow> string \<times> bool \<times> Token \<times> error" where
  "cache s = (input s, peeked s, peekToken s, peekError s)"

text \<open>
  What holds of the cache in every reachable state, and the states in which the input
  is used up.
\<close>

definition cache_ok :: "Lexer \<Rightarrow> bool" where
  "cache_ok s \<longleftrightarrow>
    (peeked s \<longrightarrow>
       lastToken s = peekToken s \<and> Kind (peekToken s) \<noteq> Comment
       \<and> (Kind (peekToken s) = EOF \<longrightarrow> endB s = length (input s)))"

definition eof_state :: "Lexer \<Rightarrow> bool" where
  "eof_state s \<longleftrightarrow> endB s = length (input s) \<and> (peeked s \<longrightarrow> Kind (peekToken s) = EOF)"

section \<open>Reading the results\<close>

definition token_of :: "result \<Rightarrow> Token option" where
  "token_of res = map_option (fst \<circ> fst) res"

definition error_of :: "result \<Rightarrow> error" where
  "error_of res = (case res of None \<Rightarrow> None | Some ((t, e), s) \<Rightarrow> e)"

definition second_token :: "(string \<Rightarrow> string) \<Rightarrow> string \<Rightarrow> Token option" where
  "second_token f inp =
    (case ReadToken f (New inp) of None \<Rightarrow> None | Some (r, s) \<Rightarrow> token_of (ReadToken f s))"

definition escapes_input :: string where
  \<comment> \<open>the twelve bytes of scenario S3: quote, a, backslash, quote, b, backslash, u, 0, 0, e, 9, quote\<close>
  \<open>escapes_input = ''"a'' @ [BACKSLASH] @ ''"b'' @ [BACKSLASH] @ ''u00e9"''\<close>

text \<open>The run of the lexer over the five bytes \<^verbatim>\<open>a b\<close>, state by state.\<close>

definition name_a :: Token where
  "name_a = \<lparr>Kind = Name, Start = 0, End = 1, Value = ''a'', Line = 1, Column = 1\<rparr>"

definition name_b :: Token where
  "name_b = \<lparr>Kind = Name, Start = 2, End = 3, Value = ''b'', Line = 1, Column = 3\<rparr>"

definition eof_3 :: Token where
  "eof_3 = \<lparr>Kind = EOF, Start = 3, End = 3, Value = [], Line = 1, Column = 4\<rparr>"

definition after_a :: Lexer where
  \<comment> \<open>the lexer over \<^verbatim>\<open>a b\<close> after one \<^verbatim>\<open>ReadToken\<close>\<close>
  "after_a = (New ''a b'')\<lparr>endB := 1, endRunes := 1, lastToken := name_a\<rparr>"

definition peeked_b :: Lexer where
  \<comment> \<open>and after a \<^verbatim>\<open>PeekToken\<close> then\<close>
  "peeked_b = after_a\<lparr>start := 2, startRunes := 2, endB := 3, endRunes := 3, peeked := True,
     peekToken := name_b, lastToken := name_b\<rparr>"

definition after_b :: Lexer where
  "after_b = peeked_b\<lparr>peeked := False\<rparr>"

definition after_eof :: Lexer where
  "after_eof = after_b\<lparr>start := 3, startRunes := 3, lastToken := eof_3\<rparr>"

definition peeked_eof :: Lexer where
  "peeked_eof = after_eof\<lparr>peeked := True, peekToken := eof_3\<rparr>"

section \<open>Positions in bytes and in runes\<close>

text \<open>
  \<open>pos_ok inp k n\<close>: the byte offset \<open>k\<close> is a rune boundary of the input, which holds \<open>n\<close>
  code points before it. \<open>lex_ok s\<close>: the input is well-formed UTF-8 and both pairs of
  offsets of the lexer, of the token's start and of the cursor, are such positions.
\<close>

definition pos_ok :: "string \<Rightarrow> nat \<Rightarrow> int \<Rightarrow> bool" where
  "pos_ok inp k n \<longleftrightarrow>
    k \<le> length inp \<and> ValidString (take k inp) \<and> n = int (RuneCountInString (take k inp))"

definition lex_ok :: "Lexer \<Rightarrow> bool" where
  "lex_ok s \<longleftrightarrow>
    ValidString (input s) \<and> start s \<le> endB s
    \<and> pos_ok (input s) (start s) (startRunes s) \<and> pos_ok (input s) (endB s) (endRunes s)"

text \<open>
  The body of a comment: the bytes up to the next control byte that is not a tab (a
  line terminator is one), or to the end of the input. \<open>skip_comment b\<close> is the state
  \<open>b\<close>, whose cursor is on a \<^verbatim>\<open>#\<close>, with the cursor moved behind the \<^verbatim>\<open>#\<close> and the body.
\<close>

definition comment_byte :: "char \<Rightarrow> bool" where
  "comment_byte c \<longleftrightarrow> 0x20 \<le> u8 c \<or> c = TAB"

definition comment_body :: "Lexer \<Rightarrow> string" where
  "comment_body s = takeWhile comment_byte (drop (endB s) (input s))"

definition skip_comment :: "Lexer \<Rightarrow> Lexer" where
  "skip_comment b =
    (let body = comment_body (advance 1 1 b)
     in advance (1 + length body) (1 + int (RuneCountInString body)) b)"

text \<open>Two more inputs, and the run of the lexer over the first.\<close>

definition utf8_input :: string where
  \<comment> \<open>the string \<^verbatim>\<open>"e"\<close> with an acute accent on the e (U+00E9, two bytes), a comment holding the same rune, a line feed and \<^verbatim>\<open>x\<close>\<close>
  \<open>utf8_input = ''"'' @ [CHR 0xC3, CHR 0xA9] @ ''" #'' @ [CHR 0xC3, CHR 0xA9] @ ''\<newline>x''\<close>

definition utf8_string :: Token where
  "utf8_string = \<lparr>Kind = String, Start = 0, End = 3, Value = [CHR 0xC3, CHR 0xA9], Line = 1, Column = 2\<rparr>"

definition utf8_x :: Token where
  "utf8_x = \<lparr>Kind = Name, Start = 7, End = 8, Value = ''x'', Line = 2, Column = 1\<rparr>"

definition utf8_after_string :: Lexer where
  "utf8_after_string = (New utf8_input)\<lparr>start := 1, startRunes := 1, endB := 4, endRunes := 3,
     lastToken := utf8_string\<rparr>"

definition utf8_after_x :: Lexer where
  "utf8_after_x = utf8_after_string\<lparr>start := 9, startRunes := 7, endB := 10, endRunes := 8,
     line := 2, lineStartRunes := 7, lastToken := utf8_x\<rparr>"

definition tab_comment_input :: string where
  \<comment> \<open>\<^verbatim>\<open>#a\<close>, a tab, \<^verbatim>\<open>b\<close>, a line feed and \<^verbatim>\<open>42\<close>\<close>
  "tab_comment_input = ''#a'' @ [TAB] @ ''b\<newline>42''"

definition int_42 :: Token where
  "int_42 = \<lparr>Kind = IntT, Start = 5, End = 7, Value = ''42'', Line = 2, Column = 1\<rparr>"

section \<open>What the scanning functions return\<close>

text \<open>
  Each scanning function leaves the input and the cache as they are, and returns a
  token of its own kinds.
\<close>

lemma cache_simps [simp]:
  "cache (advance w n s) = cache s"
  "cache (retreat k s) = cache s"
  "cache (newline s) = cache s"
  "cache (s\<lparr>start := a, startRunes := b\<rparr>) = cache s"
  "cache (s\<lparr>lastToken := t\<rparr>) = cache s"
  by (simp_all add: cache_def advance_def retreat_def newline_def)

lemma emit_result:
  "emit s k = Some ((t, e), s') \<Longrightarrow> s' = s \<and> Kind t = k \<and> e = None"
  by (auto simp: emit_def makeToken_def split: option.splits)

lemma fail_result:
  "fail s m = Some ((t, e), s') \<Longrightarrow> s' = s \<and> Kind t = Invalid \<and> e = Some m"
  by (auto simp: fail_def makeError_def)

lemma ws_body_cache: "ws_body s = Continue s' \<Longrightarrow> cache s' = cache s"
  by (auto simp: ws_body_def Let_def split: if_splits)

lemma ws_cache: "cache (ws s) = cache s"
proof (induction s rule: ws.induct)
  case (1 s)
  show ?case
  proof (cases "endB s < length (input s)")
    case False
    then show ?thesis by (simp add: ws.simps [of s])
  next
    case True
    show ?thesis
    proof (cases "ws_body s")
      case (Continue s')
      with True "1.IH" [of s'] ws_body_cache [of s s'] show ?thesis
        by (simp add: ws.simps [of s])
    next
      case (Return s')
      with True ws_body_Return [of s s'] show ?thesis
        by (simp add: ws.simps [of s])
    qed
  qed
qed

lemma beginToken_cache: "cache (beginToken s) = cache s"
  by (simp add: beginToken_def Let_def ws_cache)

lemma readComment_loop_cache: "cache (readComment_loop s) = cache s"
proof (induction s rule: readComment_loop.induct)
  case (1 s)
  then show ?case
    by (cases "endB s < length (input s) \<and> (0x1f < fst (peek s) \<or> fst (peek s) = 0x09)")
       (auto simp add: readComment_loop.simps [of s])
qed

lemma readComment_result:
  "readComment s = Some ((t, e), s') \<Longrightarrow> cache s' = cache s"
  by (auto simp: readComment_def readComment_loop_cache dest!: emit_result)

lemma readName_loop_cache: "cache (readName_loop s) = cache s"
proof (induction s rule: readName_loop.induct)
  case (1 s)
  then show ?case
    by (cases "endB s < length (input s) \<and> nameRune (fst (peek s))")
       (auto simp add: readName_loop.simps [of s])
qed

lemma readName_result:
  "readName s = Some ((t, e), s') \<Longrightarrow> cache s' = cache s \<and> Kind t = Name"
  by (auto simp: readName_def readName_loop_cache dest!: emit_result)

lemma acceptByte_cache: "cache (snd (acceptByte bs s)) = cache s"
  by (simp add: acceptByte_def)

lemma acceptDigits_loop_cache: "cache (snd (acceptDigits_loop n s)) = cache s"
proof (induction n s rule: acceptDigits_loop.induct)
  case (1 consumed s)
  then show ?case
    by (cases "endB s < length (input s) \<and> digit (input s ! endB s)")
       (auto simp add: acceptDigits_loop.simps [of consumed s])
qed

lemma acceptDigits_cache: "cache (snd (acceptDigits s)) = cache s"
  by (simp add: acceptDigits_def acceptDigits_loop_cache)

lemma expectedDigit_result:
  "expectedDigit s = Some ((t, e), s') \<Longrightarrow> s' = s \<and> Kind t = Invalid"
  by (auto simp: expectedDigit_def dest!: fail_result)

lemma readNumber_exponent_result:
  assumes "readNumber_exponent fl s = Some ((t, e), s')"
  shows "cache s' = cache s \<and> Kind t \<in> {Invalid, IntT, Float}"
proof -
  obtain b1 s1 where a1: "acceptByte ''eE'' s = (b1, s1)" by (cases "acceptByte ''eE'' s")
  obtain b2 s2 where a2: "acceptByte ''-+'' s1 = (b2, s2)" by (cases "acceptByte ''-+'' s1")
  obtain n s3 where a3: "acceptDigits s2 = (n, s3)" by (cases "acceptDigits s2")
  have c: "cache s1 = cache s" "cache s2 = cache s1" "cache s3 = cache s2"
    using acceptByte_cache [of "''eE''" s] acceptByte_cache [of "''-+''" s1]
      acceptDigits_cache [of s2] a1 a2 a3 by simp_all
  from assms a1 a2 a3 c show ?thesis
    by (auto simp: readNumber_exponent_def split: if_splits bool.splits
             dest!: emit_result expectedDigit_result)
qed

lemma readNumber_fraction_result:
  assumes "readNumber_fraction s = Some ((t, e), s')"
  shows "cache s' = cache s \<and> Kind t \<in> {Invalid, IntT, Float}"
proof -
  obtain b1 s1 where a1: "acceptByte ''.'' s = (b1, s1)" by (cases "acceptByte ''.'' s")
  obtain n s2 where a2: "acceptDigits s1 = (n, s2)" by (cases "acceptDigits s1")
  have c: "cache s1 = cache s" "cache s2 = cache s1"
    using acceptByte_cache [of "''.''" s] acceptDigits_cache [of s1] a1 a2 by simp_all
  from assms a1 a2 c show ?thesis
    by (auto simp: readNumber_fraction_def split: if_splits bool.splits
             dest!: readNumber_exponent_result expectedDigit_result)
qed

lemma readNumber_result:
  assumes "readNumber s = Some ((t, e), s')"
  shows "cache s' = cache s \<and> Kind t \<in> {Invalid, IntT, Float}"
proof -
  obtain b1 s1 where a1: "acceptByte ''-'' (retreat 1 s) = (b1, s1)"
    by (cases "acceptByte ''-'' (retreat 1 s)")
  obtain b2 s2 where a2: "acceptByte ''0'' s1 = (b2, s2)" by (cases "acceptByte ''0'' s1")
  obtain n s3 where a3: "acceptDigits s2 = (n, s3)" by (cases "acceptDigits s2")
  have c: "cache s1 = cache s" "cache s2 = cache s1" "cache s3 = cache s2"
    using acceptByte_cache [of "''-''" "retreat 1 s"] acceptByte_cache [of "''0''" s1]
      acceptDigits_cache [of s2] a1 a2 a3 by simp_all
  from assms a1 a2 a3 c show ?thesis
    by (auto simp: readNumber_def Let_def split: if_splits bool.splits
             dest!: readNumber_fraction_result expectedDigit_result fail_result)
qed

lemma escapeError_result:
  "escapeError s a = Some ((t, e), s') \<Longrightarrow> cache s' = cache s \<and> Kind t = Invalid"
  by (auto simp: escapeError_def dest!: fail_result)

lemma invalidInString_result:
  "invalidInString s r = Some ((t, e), s') \<Longrightarrow> s' = s \<and> Kind t = Invalid"
  by (auto simp: invalidInString_def dest!: fail_result)

lemma readString_body_Continue:
  "readString_body s buf = Continue (s', buf') \<Longrightarrow> cache s' = cache s"
  by (auto simp: readString_body_def Let_def split: if_splits option.splits prod.splits)

lemma readString_body_Return:
  "readString_body s buf = Return (Some ((t, e), s')) \<Longrightarrow>
   cache s' = cache s \<and> Kind t \<in> {Invalid, String}"
  by (auto simp: readString_body_def Let_def makeToken_def
           split: if_splits option.splits prod.splits
           dest!: fail_result escapeError_result invalidInString_result)

lemma readString_loop_result:
  "readString_loop s buf = Some ((t, e), s') \<Longrightarrow> cache s' = cache s \<and> Kind t \<in> {Invalid, String}"
proof (induction s buf rule: readString_loop.induct)
  case (1 s buf)
  show ?case
  proof (cases "endB s < length (input s)")
    case False
    with "1.prems" show ?thesis
      by (auto simp: readString_loop.simps [of s buf] dest!: fail_result)
  next
    case True
    show ?thesis
    proof (cases "readString_body s buf")
      case (Continue p)
      obtain s1 buf1 where p: "p = (s1, buf1)" by (cases p)
      from True Continue p "1.prems" have "readString_loop s1 buf1 = Some ((t, e), s')"
        by (simp add: readString_loop.simps [of s buf])
      from "1.IH" [OF True Continue p [symmetric] this] readString_body_Continue [of s buf s1 buf1]
        Continue p
      show ?thesis by simp
    next
      case (Return res)
      with True "1.prems" have "readString_body s buf = Return (Some ((t, e), s'))"
        by (simp add: readString_loop.simps [of s buf])
      from readString_body_Return [OF this] show ?thesis .
    qed
  qed
qed

lemma readString_result:
  "readString s = Some ((t, e), s') \<Longrightarrow> cache s' = cache s \<and> Kind t \<in> {Invalid, String}"
  by (auto simp: readString_def dest!: readString_loop_result)

lemma readBlockString_body_Continue:
  "readBlockString_body f s buf = Continue (s', buf') \<Longrightarrow> cache s' = cache s"
  by (auto simp: readBlockString_body_def Let_def split: if_splits option.splits prod.splits)

lemma readBlockString_body_Return:
  "readBlockString_body f s buf = Return (Some ((t, e), s')) \<Longrightarrow>
   cache s' = cache s \<and> Kind t \<in> {Invalid, BlockString}"
  by (auto simp: readBlockString_body_def Let_def makeToken_def
           split: if_splits option.splits prod.splits
           dest!: invalidInString_result)

lemma readBlockString_loop_result:
  "readBlockString_loop f s buf = Some ((t, e), s') \<Longrightarrow>
   cache s' = cache s \<and> Kind t \<in> {Invalid, BlockString}"
proof (induction f s buf rule: readBlockString_loop.induct)
  case (1 f s buf)
  show ?case
  proof (cases "endB s < length (input s)")
    case False
    with "1.prems" show ?thesis
      by (auto simp: readBlockString_loop.simps [of f s buf] dest!: fail_result)
  next
    case True
    show ?thesis
    proof (cases "readBlockString_body f s buf")
      case (Continue p)
      obtain s1 buf1 where p: "p = (s1, buf1)" by (cases p)
      from True Continue p "1.prems" have "readBlockString_loop f s1 buf1 = Some ((t, e), s')"
        by (simp add: readBlockString_loop.simps [of f s buf])
      from "1.IH" [OF True Continue p [symmetric] this]
        readBlockString_body_Continue [of f s buf s1 buf1] Continue p
      show ?thesis by simp
    next
      case (Return res)
      with True "1.prems" have "readBlockString_body f s buf = Return (Some ((t, e), s'))"
        by (simp add: readBlockString_loop.simps [of f s buf])
      from readBlockString_body_Return [OF this] show ?thesis .
    qed
  qed
qed

lemma readBlockString_result:
  "readBlockString f s = Some ((t, e), s') \<Longrightarrow>
   cache s' = cache s \<and> Kind t \<in> {Invalid, BlockString}"
  by (auto simp: readBlockString_def dest!: readBlockString_loop_result)

lemma unexpectedCharacter_result:
  "unexpectedCharacter r s = Some ((t, e), s') \<Longrightarrow> cache s' = cache s \<and> Kind t = Invalid"
  by (auto simp: unexpectedCharacter_def Let_def split: if_splits dest!: fail_result)

lemma dispatch_result:
  assumes "dispatch f r s = Some ((t, e), s')"
  shows "cache s' = cache s \<and> Kind t \<noteq> EOF \<and> Kind t \<noteq> Comment"
  using assms unfolding dispatch_def
  by (auto split: if_splits
           dest!: emit_result unexpectedCharacter_result readName_result readNumber_result
                  readString_result readBlockString_result)

lemma setLast_Some:
  "setLast res = Some ((t, e), s') \<Longrightarrow> \<exists>s1. res = Some ((t, e), s1) \<and> s' = s1\<lparr>lastToken := t\<rparr>"
  by (auto simp: setLast_def split: option.splits)

lemma ReadToken_peeked:
  "peeked s \<Longrightarrow> ReadToken f s = Some ((peekToken s, peekError s), s\<lparr>peeked := False, lastToken := peekToken s\<rparr>)"
  by (simp add: ReadToken.simps [of f s] setLast_def)

text \<open>What a scan that does not come from the cache returns.\<close>

lemma ReadToken_scan:
  "\<not> peeked s \<Longrightarrow> ReadToken f s = Some ((t, e), s') \<Longrightarrow>
   cache s' = cache s \<and> lastToken s' = t \<and> Kind t \<noteq> Comment
   \<and> (Kind t = EOF \<longrightarrow> endB s' = length (input s'))"
proof (induction f s arbitrary: t e s' rule: ReadToken.induct)
  case (1 f s)
  let ?b = "beginToken s"
  let ?r = "input ?b ! start ?b"
  have cb: "cache ?b = cache s" by (rule beginToken_cache)
  show ?case
  proof (cases "length (input ?b) \<le> endB ?b")
    case True
    with "1.prems" have "setLast (emit ?b EOF) = Some ((t, e), s')"
      by (simp add: ReadToken.simps [of f s])
    then obtain s1 where s1: "emit ?b EOF = Some ((t, e), s1)" "s' = s1\<lparr>lastToken := t\<rparr>"
      by (auto dest!: setLast_Some)
    from s1(1) have "s1 = ?b" "Kind t = EOF" by (auto dest!: emit_result)
    moreover from s1(1) have "endB ?b \<le> length (input ?b)"
      by (auto simp: emit_def makeToken_def slice_def split: option.splits if_splits)
    ultimately show ?thesis using s1(2) cb True by simp
  next
    case False
    note nonempty = this
    show ?thesis
    proof (cases "?r = CHR ''!''")
      case True
      with nonempty "1.prems" have "setLast (emit (advance 1 1 ?b) Bang) = Some ((t, e), s')"
        by (simp add: ReadToken.simps [of f s])
      then show ?thesis using cb by (auto dest!: setLast_Some emit_result)
    next
      case False
      note notbang = this
      show ?thesis
      proof (cases "?r = CHR ''#''")
        case True
        with nonempty notbang "1.prems" obtain c s1 where
          c: "readComment (advance 1 1 ?b) = Some (c, s1)"
          and r: "setLast (ReadToken f s1) = Some ((t, e), s')"
          by (auto simp: ReadToken.simps [of f s] split: option.splits)
        from r obtain s2 where s2: "ReadToken f s1 = Some ((t, e), s2)" "s' = s2\<lparr>lastToken := t\<rparr>"
          by (auto dest!: setLast_Some)
        from c have c1: "cache s1 = cache s"
          using readComment_result [of "advance 1 1 ?b" "fst c" "snd c" s1] cb by simp
        then have "\<not> peeked s1" using "1.prems"(1) by (simp add: cache_def)
        from "1.IH" [OF "1.prems"(1) nonempty notbang True c refl this s2(1)] c1 s2(2)
        show ?thesis by (simp add: cache_def)
      next
        case False
        with nonempty notbang "1.prems"
        have "setLast (dispatch f ?r (advance 1 1 ?b)) = Some ((t, e), s')"
          by (simp add: ReadToken.simps [of f s])
        then show ?thesis using cb by (auto dest!: setLast_Some dispatch_result)
      qed
    qed
  qed
qed

lemma ReadToken_not_peeked: "ReadToken f s = Some (r, s') \<Longrightarrow> \<not> peeked s'"
proof (cases "peeked s")
  case True
  assume "ReadToken f s = Some (r, s')"
  with ReadToken_peeked [OF True, of f] show ?thesis by auto
next
  case False
  assume "ReadToken f s = Some (r, s')"
  with ReadToken_scan [OF False, of f "fst r" "snd r" s'] False show ?thesis
    by (simp add: cache_def)
qed

section \<open>The cache in the reachable states\<close>

lemma cache_ok_New: "cache_ok (New inp)"
  by (simp add: cache_ok_def New_def)

lemma cache_ok_read: "ReadToken f s = Some (r, s') \<Longrightarrow> cache_ok s'"
  by (simp add: cache_ok_def ReadToken_not_peeked)

lemma cache_ok_peek:
  assumes "cache_ok s" and "PeekToken f s = Some (t, s')"
  shows "cache_ok s'"
proof (cases "peeked s")
  case True
  with assms show ?thesis by (simp add: PeekToken_def)
next
  case False
  with assms(2) obtain e s1 where r: "ReadToken f s = Some ((t, e), s1)"
    and s': "s' = s1\<lparr>peekToken := t, peekError := e, peeked := True\<rparr>"
    by (auto simp: PeekToken_def split: option.splits)
  from ReadToken_scan [OF False r] s' show ?thesis
    by (simp add: cache_ok_def)
qed

lemma steps_cache_ok: "steps f s0 s \<Longrightarrow> cache_ok s0 \<Longrightarrow> cache_ok s"
  by (induction rule: steps.induct) (auto intro: cache_ok_read cache_ok_peek)

lemma reachable_cache_ok: "reachable f inp s \<Longrightarrow> cache_ok s"
  unfolding reachable_def by (erule steps_cache_ok) (rule cache_ok_New)

lemma reachable_New: "reachable f inp (New inp)"
  by (simp add: reachable_def steps.here)

lemma reachable_read:
  "reachable f inp s \<Longrightarrow> ReadToken f s = Some (r, s') \<Longrightarrow> reachable f inp s'"
  unfolding reachable_def by (rule steps.read)

lemma reachable_peek:
  "reachable f inp s \<Longrightarrow> PeekToken f s = Some (t, s') \<Longrightarrow> reachable f inp s'"
  unfolding reachable_def by (rule steps.peek)

text \<open>Once the input is used up, every call returns \<^verbatim>\<open>EOF\<close> and leaves it used up.\<close>

lemma ws_at_end: "length (input s) \<le> endB s \<Longrightarrow> ws s = s"
  by (simp add: ws.simps [of s])

lemma eof_state_read:
  assumes "eof_state s"
  shows "\<exists>t e s'. ReadToken f s = Some ((t, e), s') \<and> Kind t = EOF \<and> eof_state s'"
proof (cases "peeked s")
  case True
  with assms ReadToken_peeked [OF True, of f] show ?thesis
    by (simp add: eof_state_def)
next
  case False
  from assms have b: "beginToken s = s\<lparr>start := endB s, startRunes := endRunes s\<rparr>"
    by (simp add: beginToken_def Let_def ws_at_end eof_state_def)
  from assms False show ?thesis
    by (simp add: ReadToken.simps [of f s] b eof_state_def emit_def makeToken_def slice_def
          setLast_def)
qed

lemma eof_state_peek:
  assumes "eof_state s" and "PeekToken f s = Some (t, s')"
  shows "eof_state s'"
proof (cases "peeked s")
  case True
  with assms show ?thesis by (simp add: PeekToken_def)
next
  case False
  from eof_state_read [OF assms(1), of f] obtain t1 e1 s1 where
    r: "ReadToken f s = Some ((t1, e1), s1)" "Kind t1 = EOF" "eof_state s1" by blast
  with False assms(2) show ?thesis
    by (auto simp: PeekToken_def eof_state_def)
qed

lemma steps_eof_state: "steps f s1 s2 \<Longrightarrow> eof_state s1 \<Longrightarrow> eof_state s2"
proof (induction rule: steps.induct)
  case here
  then show ?case .
next
  case (read s r s')
  from eof_state_read [of s f] read show ?case by auto
next
  case (peek s t s')
  then show ?case by (auto intro: eof_state_peek)
qed

text \<open>The run over \<^verbatim>\<open>a b\<close>.\<close>

lemma run_a_b:
  "ReadToken id (New ''a b'') = Some ((name_a, None), after_a)"
  "PeekToken id after_a = Some (name_b, peeked_b)"
  "ReadToken id peeked_b = Some ((name_b, None), after_b)"
  "ReadToken id after_b = Some ((eof_3, None), after_eof)"
  "PeekToken id after_eof = Some (eof_3, peeked_eof)"
  by code_simp+

lemma reachable_a_b:
  "reachable id ''a b'' after_a" "reachable id ''a b'' peeked_b" "reachable id ''a b'' after_b"
proof -
  show a: "reachable id ''a b'' after_a"
    by (rule reachable_read [OF reachable_New run_a_b(1)])
  show b: "reachable id ''a b'' peeked_b"
    by (rule reachable_peek [OF a run_a_b(2)])
  show "reachable id ''a b'' after_b"
    by (rule reachable_read [OF b run_a_b(3)])
qed

section \<open>The lookahead\<close>

text \<open>
  Claim C5. In every lexer state, when \<^verbatim>\<open>PeekToken\<close> returns a token \<open>t\<close>, the
  \<^verbatim>\<open>ReadToken\<close> that follows returns \<open>t\<close> and the error the lexer cached with it, which are
  the token and error that \<^verbatim>\<open>ReadToken\<close> would have returned in place of the
  \<^verbatim>\<open>PeekToken\<close>; and a second \<^verbatim>\<open>PeekToken\<close> returns \<open>t\<close> again and changes nothing in the
  state, the scan cursor included.
\<close>

theorem C5_peek_consistency:
  assumes "PeekToken f s = Some (t, s')"
  shows "token_of (ReadToken f s) = Some t \<and> error_of (ReadToken f s) = peekError s'
    \<and> ReadToken f s' = Some ((t, peekError s'), s'\<lparr>peeked := False, lastToken := t\<rparr>)
    \<and> PeekToken f s' = Some (t, s')"
proof (cases "peeked s")
  case True
  with assms have "s' = s" "t = peekToken s" by (auto simp add: PeekToken_def)
  with True ReadToken_peeked [OF True, of f] show ?thesis
    by (simp add: PeekToken_def token_of_def error_of_def)
next
  case False
  with assms obtain e s1 where r: "ReadToken f s = Some ((t, e), s1)"
    and s': "s' = s1\<lparr>peekToken := t, peekError := e, peeked := True\<rparr>"
    by (auto simp: PeekToken_def split: option.splits)
  have p: "peeked s'" "peekToken s' = t" "peekError s' = e" using s' by simp_all
  from ReadToken_peeked [OF p(1), of f] p r show ?thesis
    by (simp add: PeekToken_def token_of_def error_of_def)
qed

theorem C5_peek_consistency_witness:
  "PeekToken id after_a = Some (name_b, peeked_b)
   \<and> token_of (ReadToken id after_a) = Some name_b
   \<and> error_of (ReadToken id after_a) = peekError peeked_b
   \<and> ReadToken id peeked_b = Some ((name_b, peekError peeked_b), peeked_b\<lparr>peeked := False, lastToken := name_b\<rparr>)
   \<and> PeekToken id peeked_b = Some (name_b, peeked_b)"
  using C5_peek_consistency [OF run_a_b(2)] run_a_b(2) by simp

text \<open>
  Claim C10. \<^verbatim>\<open>PeekToken\<close> writes \<^verbatim>\<open>lastToken\<close>: in every reachable state, after a
  \<^verbatim>\<open>PeekToken\<close> that returned \<open>t\<close>, \<^verbatim>\<open>LastToken\<close> returns \<open>t\<close>, which need not be the token
  that \<^verbatim>\<open>ReadToken\<close> delivered last. Over \<^verbatim>\<open>a b\<close>, after \<^verbatim>\<open>ReadToken\<close> delivered \<^verbatim>\<open>a\<close> and
  \<^verbatim>\<open>PeekToken\<close> returned \<^verbatim>\<open>b\<close>, it returns \<^verbatim>\<open>b\<close>.
\<close>

theorem C10_peek_sets_lastToken:
  assumes "reachable f inp s" and "PeekToken f s = Some (t, s')"
  shows "LastToken s' = t"
proof (cases "peeked s")
  case True
  with assms(2) reachable_cache_ok [OF assms(1)] show ?thesis
    by (auto simp add: PeekToken_def cache_ok_def LastToken_def)
next
  case False
  with assms(2) obtain e s1 where r: "ReadToken f s = Some ((t, e), s1)"
    and s': "s' = s1\<lparr>peekToken := t, peekError := e, peeked := True\<rparr>"
    by (auto simp: PeekToken_def split: option.splits)
  from ReadToken_scan [OF False r] s' show ?thesis by (simp add: LastToken_def)
qed

theorem C10_peek_sets_lastToken_witness:
  "reachable id ''a b'' after_a \<and> LastToken after_a = name_a
   \<and> PeekToken id after_a = Some (name_b, peeked_b)
   \<and> LastToken peeked_b = name_b \<and> name_b \<noteq> name_a"
proof -
  have "LastToken after_a = name_a" by (simp add: LastToken_def after_a_def)
  moreover have "name_b \<noteq> name_a" by (simp add: name_a_def name_b_def)
  ultimately show ?thesis
    using C10_peek_sets_lastToken [OF reachable_a_b(1) run_a_b(2)] reachable_a_b(1) run_a_b(2)
    by simp
qed

section \<open>The end of the input\<close>

text \<open>
  Claim C9. Once \<^verbatim>\<open>ReadToken\<close> has returned a token of kind \<^verbatim>\<open>EOF\<close>, in a reachable
  state, every \<^verbatim>\<open>ReadToken\<close> after it, whatever calls of \<^verbatim>\<open>ReadToken\<close> and \<^verbatim>\<open>PeekToken\<close>
  come between, returns (it does not panic), and returns a token of kind \<^verbatim>\<open>EOF\<close>.
\<close>

theorem C9_EOF_idempotent:
  assumes "reachable f inp s" and "ReadToken f s = Some ((t, e), s1)" and "Kind t = EOF"
    and "steps f s1 s2"
  shows "\<exists>t' e' s3. ReadToken f s2 = Some ((t', e'), s3) \<and> Kind t' = EOF"
proof -
  have "eof_state s1"
  proof (cases "peeked s")
    case True
    with ReadToken_peeked [OF True, of f] assms(2,3) reachable_cache_ok [OF assms(1)]
    show ?thesis by (auto simp: cache_ok_def eof_state_def)
  next
    case False
    from ReadToken_scan [OF False assms(2)] assms(3) False show ?thesis
      by (simp add: eof_state_def cache_def)
  qed
  from steps_eof_state [OF assms(4) this] eof_state_read [of s2 f] show ?thesis by blast
qed

theorem C9_EOF_idempotent_witness:
  "reachable id ''a b'' after_b \<and> ReadToken id after_b = Some ((eof_3, None), after_eof)
   \<and> Kind eof_3 = EOF \<and> steps id after_eof peeked_eof
   \<and> (\<exists>t' e' s3. ReadToken id peeked_eof = Some ((t', e'), s3) \<and> Kind t' = EOF)"
proof -
  have k: "Kind eof_3 = EOF" by (simp add: eof_3_def)
  have s: "steps id after_eof peeked_eof"
    by (rule steps.peek [OF steps.here run_a_b(5)])
  from C9_EOF_idempotent [OF reachable_a_b(3) run_a_b(4) k s] reachable_a_b(3) run_a_b(4) k s
  show ?thesis by simp
qed

section \<open>Numbers with a leading zero\<close>

lemma advance_sel [simp]:
  "input (advance w n s) = input s" "start (advance w n s) = start s"
  "startRunes (advance w n s) = startRunes s" "endB (advance w n s) = endB s + w"
  "endRunes (advance w n s) = endRunes s + n" "line (advance w n s) = line s"
  "lineStartRunes (advance w n s) = lineStartRunes s" "peeked (advance w n s) = peeked s"
  "lastToken (advance w n s) = lastToken s"
  by (simp_all add: advance_def)

lemma advance_advance: "advance a (int a) (advance b (int b) s) = advance (a + b) (int (a + b)) s"
  by (simp add: advance_def add.commute add.left_commute)

lemma retreat_advance: "retreat k (advance k (int k) s) = s"
  by (simp add: advance_def retreat_def)

lemma advance_0: "advance 0 0 s = s"
  by (simp add: advance_def)

lemma drop_eq_Cons: "drop n xs = a # list \<Longrightarrow> n < length xs \<and> xs ! n = a \<and> drop (Suc n) xs = list"
proof -
  assume a: "drop n xs = a # list"
  then have n: "n < length xs" by (cases "n < length xs") auto
  from Cons_nth_drop_Suc [OF n] a n show ?thesis by simp
qed

text \<open>\<^verbatim>\<open>acceptDigits\<close> consumes the digits at the cursor, all of them and nothing else.\<close>

lemma acceptDigits_loop_run:
  "acceptDigits_loop c s =
    (c + length (takeWhile digit (drop (endB s) (input s))),
     advance (length (takeWhile digit (drop (endB s) (input s))))
       (int (length (takeWhile digit (drop (endB s) (input s))))) s)"
proof (induction c s rule: acceptDigits_loop.induct)
  case (1 c s)
  show ?case
  proof (cases "endB s < length (input s) \<and> digit (input s ! endB s)")
    case False
    then have "takeWhile digit (drop (endB s) (input s)) = []"
      by (cases "drop (endB s) (input s)") (auto dest: drop_eq_Cons)
    with False show ?thesis
      by (auto simp: acceptDigits_loop.simps [of c s] advance_0)
  next
    case True
    then have d: "drop (endB s) (input s) = input s ! endB s # drop (Suc (endB s)) (input s)"
      by (simp add: Cons_nth_drop_Suc)
    from True "1.IH" [OF True] show ?thesis
      using advance_advance [of _ 1 s]
      by (simp add: acceptDigits_loop.simps [of c s] d)
  qed
qed

lemma acceptDigits_run:
  "acceptDigits s =
    (length (takeWhile digit (drop (endB s) (input s))),
     advance (length (takeWhile digit (drop (endB s) (input s))))
       (int (length (takeWhile digit (drop (endB s) (input s))))) s)"
  by (simp add: acceptDigits_def acceptDigits_loop_run)

lemma string_of_digit: "digit d \<Longrightarrow> string_of_byte d = [d]"
  by (simp add: string_of_byte_def EncodeRune_def digit_def Let_def RuneError_def)

lemma acceptByte_hit:
  "drop (endB s) (input s) = c # rest \<Longrightarrow> c \<in> set bs \<Longrightarrow> acceptByte bs s = (True, advance 1 1 s)"
  by (auto simp: acceptByte_def dest: drop_eq_Cons)

lemma acceptByte_miss:
  "drop (endB s) (input s) = c # rest \<Longrightarrow> c \<notin> set bs \<Longrightarrow> acceptByte bs s = (False, s)"
  by (auto simp: acceptByte_def dest: drop_eq_Cons)

lemma readNumber_leading_zero:
  assumes "drop (endB s) (input s) = sign @ ''0'' @ d # rest"
    and "sign = [] \<or> sign = ''-''"
    and "digit d"
  shows "readNumber (advance 1 1 s) =
    fail (advance (length sign + 1) (int (length sign + 1)) s)
      (''Invalid number, unexpected digit after 0: '' @ [DQUOTE, d, DQUOTE] @ ''.'')"
proof -
  let ?s2 = "advance (length sign) (int (length sign)) s"
  let ?s3 = "advance (length sign + 1) (int (length sign + 1)) s"
  let ?k = "length (takeWhile digit (d # rest))"
  have r: "retreat 1 (advance 1 1 s) = s"
    using retreat_advance [of 1 s] by simp
  have a1: "snd (acceptByte ''-'' s) = ?s2"
    using assms(1,2) acceptByte_hit [of s "CHR ''-''" "''0'' @ d # rest" "''-''"]
      acceptByte_miss [of s "CHR ''0''" "d # rest" "''-''"]
    by (auto simp: advance_0)
  have d2: "drop (endB ?s2) (input ?s2) = CHR ''0'' # d # rest"
    using assms(1,2) by (auto simp: add.commute dest: drop_eq_Cons)
  have a2: "acceptByte ''0'' ?s2 = (True, ?s3)"
    using acceptByte_hit [OF d2, of "''0''"] advance_advance [of 1 "length sign" s] by simp
  have d3: "drop (endB ?s3) (input ?s3) = d # rest"
    using d2 drop_eq_Cons [OF d2] by (simp add: add.commute)
  have k: "0 < ?k" using assms(3) by simp
  have a3: "acceptDigits ?s3 = (?k, advance ?k (int ?k) ?s3)"
    by (simp only: acceptDigits_run d3)
  have dn: "describeNext ?s3 = [DQUOTE, d, DQUOTE]"
    using drop_eq_Cons [OF d3] assms(3) by (simp add: describeNext_def string_of_digit)
  show ?thesis
    unfolding readNumber_def
    by (simp only: r a1 a2 a3 Let_def split_conv bool.case retreat_advance dn)
       (use k in simp)
qed

lemma beginToken_start:
  "start (beginToken s) = endB (beginToken s)" "startRunes (beginToken s) = endRunes (beginToken s)"
  by (simp_all add: beginToken_def Let_def)

lemma dispatch_number:
  "r = CHR ''-'' \<or> r = CHR ''0'' \<Longrightarrow> dispatch f r s = readNumber s"
  by (auto simp: dispatch_def nameStart_def numberStart_def)

text \<open>
  In every state with an empty cache where the text after the skipped whitespace is an
  optional minus sign, \<^verbatim>\<open>0\<close>, a digit \<open>d\<close> and anything, \<^verbatim>\<open>ReadToken\<close> returns an
  \<^verbatim>\<open>Invalid\<close> token and the message that names \<open>d\<close>, and leaves the cursor on \<open>d\<close>. The
  line and the column of the token are the lexer's own counters.
\<close>

lemma leading_zero_error:
  assumes "\<not> peeked s"
    and "drop (endB (beginToken s)) (input (beginToken s)) = sign @ ''0'' @ d # rest"
    and "sign = [] \<or> sign = ''-''"
    and "digit d"
  shows
    \<open>token_of (ReadToken f s) =
       Some \<lparr>Kind = Invalid, Start = endRunes (beginToken s),
             End = endRunes (beginToken s) + int (length sign) + 1, Value = [],
             Line = line (beginToken s),
             Column = endRunes (beginToken s) + int (length sign) + 1 - lineStartRunes (beginToken s) + 1\<rparr>
     \<and> error_of (ReadToken f s) = Some (''Invalid number, unexpected digit after 0: "'' @ [d] @ ''".'')
     \<and> map_option (endB \<circ> snd) (ReadToken f s) = Some (endB (beginToken s) + length sign + 1)
     \<and> input s ! (endB (beginToken s) + length sign + 1) = d\<close>
proof -
  let ?b = "beginToken s"
  let ?r = "input ?b ! start ?b"
  have inp: "input ?b = input s"
    using beginToken_cache [of s] by (simp add: cache_def)
  have r: "?r = CHR ''-'' \<or> ?r = CHR ''0''"
    using assms(2,3) by (auto simp: beginToken_start dest: drop_eq_Cons)
  have ne: "\<not> length (input ?b) \<le> endB ?b"
    using assms(2,3) by (auto dest: drop_eq_Cons)
  have d: "input s ! (endB ?b + length sign + 1) = d"
  proof -
    have "drop (endB ?b + length sign + 1) (input ?b) = d # rest"
      using arg_cong [OF assms(2), of "drop (length sign + 1)"] by (simp add: add.commute add.left_commute)
    from drop_eq_Cons [OF this] inp show ?thesis by simp
  qed
  have "ReadToken f s = setLast (readNumber (advance 1 1 ?b))"
    using assms(1) ne r dispatch_number [OF r, of f "advance 1 1 ?b"]
    by (auto simp: ReadToken.simps [of f s])
  also have "readNumber (advance 1 1 ?b) =
    fail (advance (length sign + 1) (int (length sign + 1)) ?b)
      (''Invalid number, unexpected digit after 0: '' @ [DQUOTE, d, DQUOTE] @ ''.'')"
    by (rule readNumber_leading_zero [OF assms(2-4)])
  finally show ?thesis
    using d by (simp add: setLast_def fail_def makeError_def token_of_def error_of_def beginToken_start)
qed

section \<open>Decoding UTF-8\<close>

text \<open>A rune that decodes without error is decoded from its own bytes alone.\<close>

lemma decode_ascii: "u8 c < 0x80 \<Longrightarrow> DecodeRuneInString (c # cs) = (int (u8 c), 1)"
  by simp

lemma decode_local:
  assumes "DecodeRuneInString xs = (r, w)" and "\<not> (r = RuneError \<and> w = 1)" and "xs \<noteq> []"
  shows "w \<le> length xs \<and> DecodeRuneInString (take w xs @ zs) = (r, w)"
proof -
  from assms(3) obtain c0 cs where xs: "xs = c0 # cs" by (cases xs) auto
  show ?thesis
  proof (cases cs)
    case Nil
    with assms xs show ?thesis by (auto simp: Let_def split: if_splits)
  next
    case (Cons c1 cs1)
    note c1 = this
    show ?thesis
    proof (cases cs1)
      case Nil
      with assms xs c1 show ?thesis by (auto simp: Let_def split: if_splits)
    next
      case (Cons c2 cs2)
      note c2 = this
      show ?thesis
      proof (cases cs2)
        case Nil
        with assms xs c1 c2 show ?thesis by (auto simp: Let_def split: if_splits)
      next
        case (Cons c3 cs3)
        with assms xs c1 c2 show ?thesis by (auto simp: Let_def split: if_splits)
      qed
    qed
  qed
qed

lemma decode_append:
  assumes "DecodeRuneInString xs = (r, w)" and "\<not> (r = RuneError \<and> w = 1)" and "xs \<noteq> []"
  shows "DecodeRuneInString (xs @ ys) = (r, w)"
proof -
  from decode_local [OF assms, of "drop w xs @ ys"] show ?thesis
    by (simp flip: append_assoc)
qed

lemma decode_take:
  assumes "DecodeRuneInString xs = (r, w)" and "\<not> (r = RuneError \<and> w = 1)" and "xs \<noteq> []"
  shows "DecodeRuneInString (take w xs) = (r, w)"
  using decode_local [OF assms, of "[]"] by simp

lemma ValidString_Nil [simp]: "ValidString []"
  by (simp add: ValidString.simps)

lemma RuneCountInString_Nil [simp]: "RuneCountInString [] = 0"
  by (simp add: RuneCountInString.simps)

lemma ValidString_step:
  assumes "ValidString xs" and "xs \<noteq> []"
  shows "\<not> (fst (DecodeRuneInString xs) = RuneError \<and> snd (DecodeRuneInString xs) = 1)
    \<and> 0 < snd (DecodeRuneInString xs) \<and> snd (DecodeRuneInString xs) \<le> length xs
    \<and> ValidString (drop (snd (DecodeRuneInString xs)) xs)"
proof -
  obtain r w where d: "DecodeRuneInString xs = (r, w)" by (cases "DecodeRuneInString xs")
  from assms d have v: "\<not> (r = RuneError \<and> w = 1)" "ValidString (drop w xs)"
    by (simp_all add: ValidString.simps [of xs])
  from decode_local [OF d v(1) assms(2), of "[]"] DecodeRuneInString_width_pos [OF assms(2)] d v
  show ?thesis by simp
qed

text \<open>Behind a well-formed prefix, validity and the count of runes are those of the rest.\<close>

lemma valid_append: "ValidString xs \<Longrightarrow> ValidString (xs @ ys) = ValidString ys"
proof (induction xs rule: ValidString.induct)
  case (1 xs)
  show ?case
  proof (cases "xs = []")
    case True
    then show ?thesis by simp
  next
    case False
    obtain r w where d: "DecodeRuneInString xs = (r, w)" by (cases "DecodeRuneInString xs")
    from ValidString_step [OF "1.prems" False] d
    have v: "\<not> (r = RuneError \<and> w = 1)" "w \<le> length xs" "ValidString (drop w xs)" by simp_all
    from decode_append [OF d v(1) False, of ys] have da: "DecodeRuneInString (xs @ ys) = (r, w)" .
    from "1.IH" [OF False d [symmetric] v(3)] have "ValidString (drop w xs @ ys) = ValidString ys" .
    with False da v show ?thesis
      by (simp add: ValidString.simps [of "xs @ ys"])
  qed
qed

lemma count_append:
  "ValidString xs \<Longrightarrow> RuneCountInString (xs @ ys) = RuneCountInString xs + RuneCountInString ys"
proof (induction xs rule: ValidString.induct)
  case (1 xs)
  show ?case
  proof (cases "xs = []")
    case True
    then show ?thesis by simp
  next
    case False
    obtain r w where d: "DecodeRuneInString xs = (r, w)" by (cases "DecodeRuneInString xs")
    from ValidString_step [OF "1.prems" False] d
    have v: "\<not> (r = RuneError \<and> w = 1)" "w \<le> length xs" "ValidString (drop w xs)" by simp_all
    from decode_append [OF d v(1) False, of ys] have da: "DecodeRuneInString (xs @ ys) = (r, w)" .
    from "1.IH" [OF False d [symmetric] v(3)]
    have "RuneCountInString (drop w xs @ ys) = RuneCountInString (drop w xs) + RuneCountInString ys" .
    with False da d v show ?thesis
      by (simp add: RuneCountInString.simps [of "xs @ ys"] RuneCountInString.simps [of xs])
  qed
qed

lemma first_rune:
  assumes "ValidString xs" and "xs \<noteq> []"
  shows "ValidString (take (snd (DecodeRuneInString xs)) xs)
    \<and> RuneCountInString (take (snd (DecodeRuneInString xs)) xs) = 1"
proof -
  obtain r w where d: "DecodeRuneInString xs = (r, w)" by (cases "DecodeRuneInString xs")
  from ValidString_step [OF assms] d
  have v: "\<not> (r = RuneError \<and> w = 1)" "0 < w" "w \<le> length xs" by simp_all
  from decode_take [OF d v(1) assms(2)] have dt: "DecodeRuneInString (take w xs) = (r, w)" .
  from v assms(2) have ne: "take w xs \<noteq> []" by (cases xs) auto
  from dt v ne d show ?thesis
    by (simp add: ValidString.simps [of "take w xs"] RuneCountInString.simps [of "take w xs"])
qed

text \<open>A rune of more than one byte is not below 0x80.\<close>

lemma mod_window: "q * m \<le> (a::nat) \<Longrightarrow> a < q * m + m \<Longrightarrow> a mod m = a - q * m"
  by (rule mod_nat_eqI) auto

lemma nat_or_ge1: "(a::nat) \<le> a OR b"
proof -
  have "int a \<le> int a OR int b" by (rule or_greater_eq) simp
  then show ?thesis by (simp add: or_nat_def le_nat_iff)
qed

lemma nat_or_ge2: "(b::nat) \<le> a OR b"
  using nat_or_ge1 [of b a] by (simp add: or.commute)

lemma and_mask_mod: "(a::nat) AND mask n = a mod 2 ^ n"
  by (simp add: take_bit_eq_mask [symmetric] take_bit_eq_mod)

lemma and_31: "(a::nat) AND 0x1F = a mod 32"
  using and_mask_mod [of a 5] by (simp add: mask_eq_exp_minus_1)

lemma and_15: "(a::nat) AND 0x0F = a mod 16"
  using and_mask_mod [of a 4] by (simp add: mask_eq_exp_minus_1)

lemma and_7: "(a::nat) AND 0x07 = a mod 8"
  using and_mask_mod [of a 3] by (simp add: mask_eq_exp_minus_1)

lemma and_63: "(a::nat) AND 0x3F = a mod 64"
  using and_mask_mod [of a 6] by (simp add: mask_eq_exp_minus_1)

lemma rune2_ge: "194 \<le> s0 \<Longrightarrow> s0 < 224 \<Longrightarrow> 128 \<le> push_bit 6 ((s0::nat) AND 0x1F) OR y"
proof -
  assume a: "194 \<le> s0" "s0 < 224"
  then have "2 \<le> s0 mod 32" using mod_window [of 6 32 s0] by simp
  then have "128 \<le> push_bit 6 (s0 AND 0x1F)" by (simp add: and_31 push_bit_nat_def)
  then show ?thesis using nat_or_ge1 [of "push_bit 6 (s0 AND 0x1F)" y] by linarith
qed

lemma rune3_ge:
  assumes "224 \<le> s0" "s0 < 240" "s0 = 224 \<longrightarrow> 160 \<le> s1" "s1 \<le> 191"
  shows "128 \<le> push_bit 12 ((s0::nat) AND 0x0F) OR push_bit 6 ((s1::nat) AND 0x3F) OR z"
proof (cases "s0 = 224")
  case True
  with assms have "32 \<le> s1 mod 64" using mod_window [of 2 64 s1] by simp
  then have "128 \<le> push_bit 6 (s1 AND 0x3F)" by (simp add: and_63 push_bit_nat_def)
  then show ?thesis
    using nat_or_ge1 [of "push_bit 6 (s1 AND 0x3F)" z]
      nat_or_ge2 [of "push_bit 6 (s1 AND 0x3F) OR z" "push_bit 12 (s0 AND 0x0F)"]
    by linarith
next
  case False
  with assms have "1 \<le> s0 mod 16" using mod_window [of 14 16 s0] by simp
  then have "128 \<le> push_bit 12 (s0 AND 0x0F)" by (simp add: and_15 push_bit_nat_def)
  then show ?thesis
    using nat_or_ge1 [of "push_bit 12 (s0 AND 0x0F)" "push_bit 6 (s1 AND 0x3F) OR z"]
    by linarith
qed

lemma rune4_ge:
  assumes "240 \<le> s0" "s0 \<le> 244" "s0 = 240 \<longrightarrow> 144 \<le> s1" "s1 \<le> 191"
  shows "128 \<le> push_bit 18 ((s0::nat) AND 0x07) OR push_bit 12 ((s1::nat) AND 0x3F) OR z"
proof (cases "s0 = 240")
  case True
  with assms have "16 \<le> s1 mod 64" using mod_window [of 2 64 s1] by simp
  then have "128 \<le> push_bit 12 (s1 AND 0x3F)" by (simp add: and_63 push_bit_nat_def)
  then show ?thesis
    using nat_or_ge1 [of "push_bit 12 (s1 AND 0x3F)" z]
      nat_or_ge2 [of "push_bit 12 (s1 AND 0x3F) OR z" "push_bit 18 (s0 AND 0x07)"]
    by linarith
next
  case False
  with assms have "1 \<le> s0 mod 8" using mod_window [of 30 8 s0] by simp
  then have "128 \<le> push_bit 18 (s0 AND 0x07)" by (simp add: and_7 push_bit_nat_def)
  then show ?thesis
    using nat_or_ge1 [of "push_bit 18 (s0 AND 0x07)" "push_bit 12 (s1 AND 0x3F) OR z"]
    by linarith
qed

lemma decode_rune_ge:
  assumes "0x80 \<le> u8 c0"
  shows "0x80 \<le> fst (DecodeRuneInString (c0 # cs))"
proof -
  let ?s0 = "u8 c0"
  consider (bad) "?s0 < 0xC2 \<or> 0xF4 < ?s0" | (two) "0xC2 \<le> ?s0" "?s0 < 0xE0"
    | (three) "0xE0 \<le> ?s0" "?s0 < 0xF0" | (four) "0xF0 \<le> ?s0" "?s0 \<le> 0xF4"
    by linarith
  then show ?thesis
  proof cases
    case bad
    with assms show ?thesis by (auto simp: RuneError_def)
  next
    case two
    with assms rune2_ge [of ?s0] show ?thesis by (auto simp: RuneError_def Let_def)
  next
    case three
    with assms rune3_ge [of ?s0 "u8 (cs ! 0)"] show ?thesis
      by (auto simp: RuneError_def Let_def not_less)
  next
    case four
    with assms rune4_ge [of ?s0 "u8 (cs ! 0)"] show ?thesis
      by (auto simp: RuneError_def Let_def not_less)
  qed
qed

text \<open>The digits that \<^verbatim>\<open>unhex\<close> accepts are ASCII.\<close>

lemma hexValue_ascii:
  assumes "hexValue (fst (DecodeRuneInString b)) = Some d" and "b \<noteq> []"
  shows "u8 (hd b) < 0x80 \<and> snd (DecodeRuneInString b) = 1"
proof -
  from assms(2) obtain c0 cs where b: "b = c0 # cs" by (cases b) auto
  from assms(1) have "fst (DecodeRuneInString b) < 0x80"
    by (auto simp: hexValue_def split: if_splits)
  with decode_rune_ge [of c0 cs] b have "u8 c0 < 0x80" by (cases "0x80 \<le> u8 c0") auto
  with b show ?thesis by simp
qed

lemma unhex_loop_ascii:
  "unhex_loop v b = (x, True) \<Longrightarrow> \<forall>c\<in>set b. u8 c < 0x80"
proof (induction v b rule: unhex_loop.induct)
  case (1 v b)
  show ?case
  proof (cases "b = []")
    case True
    then show ?thesis by simp
  next
    case False
    with "1.prems" obtain d where d: "hexValue (fst (DecodeRuneInString b)) = Some d"
      and r: "unhex_loop (push_bit 4 v OR d) (drop (snd (DecodeRuneInString b)) b) = (x, True)"
      by (auto simp: unhex_loop.simps [of v b] split: option.splits)
    from hexValue_ascii [OF d False] have a: "u8 (hd b) < 0x80" "snd (DecodeRuneInString b) = 1"
      by simp_all
    from "1.IH" [OF False d r] a False show ?thesis
      by (cases b) auto
  qed
qed

lemma unhex_ascii: "unhex b = (x, True) \<Longrightarrow> \<forall>c\<in>set b. u8 c < 0x80"
  by (simp add: unhex_def unhex_loop_ascii)

section \<open>The offsets in runes follow the offsets in bytes\<close>

lemma pos_ok_0: "pos_ok inp 0 0"
  by (simp add: pos_ok_def)

lemma valid_drop:
  assumes "ValidString inp" and "ValidString (take k inp)"
  shows "ValidString (drop k inp)"
  using valid_append [OF assms(2), of "drop k inp"] assms(1) by simp

lemma pos_ok_decode:
  assumes "ValidString inp" and "pos_ok inp k n" and "k < length inp"
  shows "pos_ok inp (k + snd (DecodeRuneInString (drop k inp))) (n + 1)"
proof -
  let ?ys = "drop k inp"
  let ?w = "snd (DecodeRuneInString ?ys)"
  from assms(2) have p: "ValidString (take k inp)" "n = int (RuneCountInString (take k inp))"
    by (simp_all add: pos_ok_def)
  from assms(3) have ne: "?ys \<noteq> []" by simp
  have vy: "ValidString ?ys" by (rule valid_drop [OF assms(1) p(1)])
  from ValidString_step [OF vy ne] have w: "?w \<le> length ?ys" by simp
  from first_rune [OF vy ne] have f: "ValidString (take ?w ?ys)" "RuneCountInString (take ?w ?ys) = 1"
    by simp_all
  have t: "take (k + ?w) inp = take k inp @ take ?w ?ys" by (rule take_add)
  from w assms(3) have "k + ?w \<le> length inp" by simp
  moreover have "ValidString (take (k + ?w) inp)"
    using valid_append [OF p(1), of "take ?w ?ys"] f(1) t by simp
  moreover have "n + 1 = int (RuneCountInString (take (k + ?w) inp))"
    using count_append [OF p(1), of "take ?w ?ys"] f(2) t p(2) by simp
  ultimately show ?thesis by (simp add: pos_ok_def)
qed

lemma pos_ok_ascii:
  assumes "ValidString inp" and "pos_ok inp k n" and "k < length inp" and "u8 (inp ! k) < 0x80"
  shows "pos_ok inp (Suc k) (n + 1)"
proof -
  from assms(3) have d: "drop k inp = inp ! k # drop (Suc k) inp" by (simp add: Cons_nth_drop_Suc)
  from assms(4) have "snd (DecodeRuneInString (drop k inp)) = 1" by (simp add: d)
  with pos_ok_decode [OF assms(1-3)] show ?thesis by simp
qed

lemma pos_ok_bom:
  assumes "ValidString inp" and "pos_ok inp k n" and "k + 2 < length inp"
    and "inp ! k = CHR 0xEF" and "inp ! (k + 1) = CHR 0xBB" and "inp ! (k + 2) = CHR 0xBF"
  shows "pos_ok inp (k + 3) (n + 1)"
proof -
  from assms(3) have "drop k inp = inp ! k # inp ! (k + 1) # inp ! (k + 2) # drop (k + 3) inp"
    by (simp add: Cons_nth_drop_Suc [symmetric] numeral_3_eq_3)
  with assms(4-6) have "snd (DecodeRuneInString (drop k inp)) = 3" by simp
  with pos_ok_decode [OF assms(1,2)] assms(3) show ?thesis by simp
qed

lemma pos_ok_le:
  assumes "pos_ok inp a m" and "pos_ok inp b n" and "a \<le> b"
  shows "m \<le> n"
proof -
  from assms(1) have va: "ValidString (take a inp)" "m = int (RuneCountInString (take a inp))"
    by (simp_all add: pos_ok_def)
  from assms(3) have "take b inp = take a inp @ take (b - a) (drop a inp)"
    by (metis le_add_diff_inverse take_add)
  with count_append [OF va(1), of "take (b - a) (drop a inp)"] assms(2) va(2) show ?thesis
    by (simp add: pos_ok_def)
qed

text \<open>The moves of the cursor: over a rune, over ASCII bytes, over a byte order mark.\<close>

lemma lex_ok_advance_decode:
  assumes "lex_ok s" and "endB s < length (input s)"
  shows "lex_ok (advance (snd (peek s)) 1 s)"
  using assms pos_ok_decode [of "input s" "endB s" "endRunes s"]
  by (simp add: lex_ok_def peek_def)

lemma lex_ok_advance_ascii:
  assumes "lex_ok s" and "endB s < length (input s)" and "u8 (input s ! endB s) < 0x80"
  shows "lex_ok (advance 1 1 s)"
  using assms pos_ok_ascii [of "input s" "endB s" "endRunes s"]
  by (simp add: lex_ok_def)

lemma lex_ok_advance_asciis:
  "lex_ok s \<Longrightarrow> endB s + k \<le> length (input s) \<Longrightarrow>
   (\<forall>i<k. u8 (input s ! (endB s + i)) < 0x80) \<Longrightarrow> lex_ok (advance k (int k) s)"
proof (induction k arbitrary: s)
  case 0
  then show ?case by (simp add: advance_0)
next
  case (Suc k)
  from Suc.prems have a: "lex_ok (advance 1 1 s)"
    by (intro lex_ok_advance_ascii) (auto dest: spec [where x = 0])
  have "lex_ok (advance k (int k) (advance 1 1 s))"
  proof (rule Suc.IH [OF a])
    show "endB (advance 1 1 s) + k \<le> length (input (advance 1 1 s))"
      using Suc.prems(2) by simp
    show "\<forall>i<k. u8 (input (advance 1 1 s) ! (endB (advance 1 1 s) + i)) < 0x80"
      using Suc.prems(3) by (auto dest: spec [where x = "Suc _"])
  qed
  then show ?case using advance_advance [of k 1 s] by simp
qed

lemma lex_ok_advance_take:
  assumes "lex_ok s" and "endB s + k \<le> length (input s)"
    and "\<forall>c\<in>set (take k (drop (endB s) (input s))). u8 c < 0x80"
  shows "lex_ok (advance k (int k) s)"
proof (rule lex_ok_advance_asciis [OF assms(1,2)], intro allI impI)
  fix i assume i: "i < k"
  with assms(2) have "take k (drop (endB s) (input s)) ! i = input s ! (endB s + i)"
    by simp
  moreover from i assms(2) have "take k (drop (endB s) (input s)) ! i \<in> set (take k (drop (endB s) (input s)))"
    by (intro nth_mem) simp
  ultimately show "u8 (input s ! (endB s + i)) < 0x80" using assms(3) by auto
qed

lemma lex_ok_advance_bom:
  assumes "lex_ok s" and "endB s + 2 < length (input s)"
    and "input s ! endB s = CHR 0xEF" and "input s ! (endB s + 1) = CHR 0xBB"
    and "input s ! (endB s + 2) = CHR 0xBF"
  shows "lex_ok (advance 3 1 s)"
  using assms pos_ok_bom [of "input s" "endB s" "endRunes s"]
  by (simp add: lex_ok_def)

lemma lex_ok_other [simp]:
  "lex_ok (newline s) = lex_ok s"
  "lex_ok (s\<lparr>lastToken := t\<rparr>) = lex_ok s"
  "lex_ok (s\<lparr>peeked := b\<rparr>) = lex_ok s"
  "lex_ok (s\<lparr>peekToken := t\<rparr>) = lex_ok s"
  "lex_ok (s\<lparr>peekError := e\<rparr>) = lex_ok s"
  by (simp_all add: lex_ok_def newline_def)

lemma lex_ok_begin:
  "lex_ok s \<Longrightarrow> lex_ok (s\<lparr>start := endB s, startRunes := endRunes s\<rparr>)"
  by (simp add: lex_ok_def)

lemma lex_ok_New: "ValidString inp \<Longrightarrow> lex_ok (New inp)"
  by (simp add: lex_ok_def New_def pos_ok_0)

lemma lex_ok_runes:
  "lex_ok s \<Longrightarrow>
   startRunes s \<le> endRunes s
   \<and> startRunes s = int (RuneCountInString (take (start s) (input s)))
   \<and> endRunes s = int (RuneCountInString (take (endB s) (input s)))"
  using pos_ok_le [of "input s" "start s" "startRunes s" "endB s" "endRunes s"]
  by (simp add: lex_ok_def pos_ok_def)

text \<open>Whitespace, comments and names.\<close>

lemma ws_body_ok:
  assumes "lex_ok s" and "endB s < length (input s)" and "ws_body s = Continue s'"
  shows "lex_ok s'"
proof -
  let ?c = "input s ! endB s"
  consider (blank) "?c = TAB \<or> ?c = CHR '' '' \<or> ?c = CHR '',''" | (lf) "?c = LF" | (cr) "?c = CR"
    | (bom) "?c = CHR 0xEF" | (other) "?c \<noteq> TAB" "?c \<noteq> CHR '' ''" "?c \<noteq> CHR '',''" "?c \<noteq> LF" "?c \<noteq> CR" "?c \<noteq> CHR 0xEF"
    by blast
  then show ?thesis
  proof cases
    case blank
    with assms(3) have "s' = advance 1 1 s" by (auto simp: ws_body_def Let_def)
    moreover from blank have "u8 ?c < 0x80" by auto
    ultimately show ?thesis using lex_ok_advance_ascii [OF assms(1,2)] by simp
  next
    case lf
    with assms(3) have "s' = newline (advance 1 1 s)" by (auto simp: ws_body_def Let_def)
    moreover from lf have "u8 ?c < 0x80" by auto
    ultimately show ?thesis using lex_ok_advance_ascii [OF assms(1,2)] by simp
  next
    case cr
    let ?s1 = "newline (advance 1 1 s)"
    from cr have "u8 ?c < 0x80" by auto
    with lex_ok_advance_ascii [OF assms(1,2)] have ok1: "lex_ok ?s1" by simp
    show ?thesis
    proof (cases "endB ?s1 < length (input ?s1) \<and> input ?s1 ! endB ?s1 = LF")
      case True
      with cr assms(3) have "s' = advance 1 1 ?s1" by (auto simp: ws_body_def Let_def)
      moreover from True have "u8 (input ?s1 ! endB ?s1) < 0x80" by simp
      ultimately show ?thesis using lex_ok_advance_ascii [OF ok1] True by simp
    next
      case False
      with cr assms(3) have "s' = ?s1" by (auto simp: ws_body_def Let_def)
      with ok1 show ?thesis by simp
    qed
  next
    case bom
    with assms(3) have "s' = advance 3 1 s" and "endB s + 2 < length (input s)"
      and "input s ! (endB s + 1) = CHR 0xBB" and "input s ! (endB s + 2) = CHR 0xBF"
      by (auto simp: ws_body_def Let_def split: if_splits)
    with lex_ok_advance_bom [OF assms(1) _ bom] show ?thesis by simp
  next
    case other
    with assms(3) show ?thesis by (simp add: ws_body_def Let_def)
  qed
qed

lemma ws_ok: "lex_ok s \<Longrightarrow> lex_ok (ws s)"
proof (induction s rule: ws.induct)
  case (1 s)
  show ?case
  proof (cases "endB s < length (input s)")
    case False
    with "1.prems" show ?thesis by (simp add: ws.simps [of s])
  next
    case True
    show ?thesis
    proof (cases "ws_body s")
      case (Continue s')
      with True "1.IH" [OF True Continue ws_body_ok [OF "1.prems" True Continue]] show ?thesis
        by (simp add: ws.simps [of s])
    next
      case (Return s')
      with True ws_body_Return [of s s'] "1.prems" show ?thesis
        by (simp add: ws.simps [of s])
    qed
  qed
qed

lemma beginToken_ok: "lex_ok s \<Longrightarrow> lex_ok (beginToken s)"
  by (simp add: beginToken_def Let_def lex_ok_begin ws_ok)

lemma readComment_loop_ok: "lex_ok s \<Longrightarrow> lex_ok (readComment_loop s)"
proof (induction s rule: readComment_loop.induct)
  case (1 s)
  show ?case
  proof (cases "endB s < length (input s) \<and> (0x1f < fst (peek s) \<or> fst (peek s) = 0x09)")
    case False
    with "1.prems" show ?thesis by (auto simp: readComment_loop.simps [of s])
  next
    case True
    with "1.IH" [OF True] lex_ok_advance_decode [OF "1.prems"] show ?thesis
      by (simp add: readComment_loop.simps [of s])
  qed
qed

lemma readName_loop_ok: "lex_ok s \<Longrightarrow> lex_ok (readName_loop s)"
proof (induction s rule: readName_loop.induct)
  case (1 s)
  show ?case
  proof (cases "endB s < length (input s) \<and> nameRune (fst (peek s))")
    case False
    with "1.prems" show ?thesis by (auto simp: readName_loop.simps [of s])
  next
    case True
    with "1.IH" [OF True] lex_ok_advance_decode [OF "1.prems"] show ?thesis
      by (simp add: readName_loop.simps [of s])
  qed
qed

lemma emit_ok: "lex_ok s \<Longrightarrow> emit s k = Some (te, s') \<Longrightarrow> lex_ok s'"
  by (auto simp: emit_def split: option.splits)

lemma fail_ok: "lex_ok s \<Longrightarrow> fail s m = Some (te, s') \<Longrightarrow> lex_ok s'"
  by (auto simp: fail_def)

lemma readName_ok:
  assumes "lex_ok s" and "readName s = Some (te, s')"
  shows "lex_ok s'"
  using assms readName_loop_ok [of s] by (auto simp: readName_def dest: emit_ok)

lemma readComment_ok:
  assumes "lex_ok s" and "readComment s = Some (te, s')"
  shows "lex_ok s'"
  using assms readComment_loop_ok [of s] by (auto simp: readComment_def dest: emit_ok)

text \<open>Numbers.\<close>

lemma acceptByte_ok:
  assumes "lex_ok s" and "\<forall>c\<in>set bs. u8 c < 0x80"
  shows "lex_ok (snd (acceptByte bs s))"
  using assms lex_ok_advance_ascii [of s]
  by (auto simp: acceptByte_def not_le)

lemma digit_ascii: "digit c \<Longrightarrow> u8 c < 0x80"
  by (simp add: digit_def)

lemma takeWhile_nth_holds:
  "i < length (takeWhile P xs) \<Longrightarrow> P (xs ! i)"
  by (metis nth_mem set_takeWhileD takeWhile_nth)

lemma acceptDigits_ok:
  assumes "lex_ok s"
  shows "lex_ok (snd (acceptDigits s))"
proof -
  let ?k = "length (takeWhile digit (drop (endB s) (input s)))"
  have k: "?k \<le> length (drop (endB s) (input s))" by (rule length_takeWhile_le)
  have "lex_ok (advance ?k (int ?k) s)"
  proof (rule lex_ok_advance_asciis [OF assms])
    from assms have "endB s \<le> length (input s)" by (simp add: lex_ok_def pos_ok_def)
    with k show "endB s + ?k \<le> length (input s)" by simp
    show "\<forall>i<?k. u8 (input s ! (endB s + i)) < 0x80"
    proof (intro allI impI)
      fix i assume i: "i < ?k"
      from takeWhile_nth_holds [OF i] have "digit (drop (endB s) (input s) ! i)" .
      moreover from i k have "endB s + i < length (input s)" by simp
      ultimately show "u8 (input s ! (endB s + i)) < 0x80"
        by (simp add: digit_ascii)
    qed
  qed
  then show ?thesis by (simp add: acceptDigits_run)
qed

lemma acceptDigits_retreat:
  "retreat (fst (acceptDigits s)) (snd (acceptDigits s)) = s"
  by (simp add: acceptDigits_run retreat_advance)

lemma expectedDigit_ok: "lex_ok s \<Longrightarrow> expectedDigit s = Some (te, s') \<Longrightarrow> lex_ok s'"
  by (auto simp: expectedDigit_def dest: fail_ok)

lemma readNumber_exponent_ok:
  assumes "lex_ok s" and "readNumber_exponent fl s = Some (te, s')"
  shows "lex_ok s'"
proof -
  obtain b1 s1 where a1: "acceptByte ''eE'' s = (b1, s1)" by (cases "acceptByte ''eE'' s")
  obtain b2 s2 where a2: "acceptByte ''-+'' s1 = (b2, s2)" by (cases "acceptByte ''-+'' s1")
  obtain n s3 where a3: "acceptDigits s2 = (n, s3)" by (cases "acceptDigits s2")
  have o1: "lex_ok s1" using acceptByte_ok [OF assms(1), of "''eE''"] a1 by simp
  have o2: "lex_ok s2" using acceptByte_ok [OF o1, of "''-+''"] a2 by simp
  have o3: "lex_ok s3" using acceptDigits_ok [OF o2] a3 by simp
  from assms(2) a1 a2 a3 o1 o3 show ?thesis
    by (auto simp: readNumber_exponent_def split: if_splits bool.splits
             dest: emit_ok expectedDigit_ok)
qed

lemma readNumber_fraction_ok:
  assumes "lex_ok s" and "readNumber_fraction s = Some (te, s')"
  shows "lex_ok s'"
proof -
  obtain b1 s1 where a1: "acceptByte ''.'' s = (b1, s1)" by (cases "acceptByte ''.'' s")
  obtain n s2 where a2: "acceptDigits s1 = (n, s2)" by (cases "acceptDigits s1")
  have o1: "lex_ok s1" using acceptByte_ok [OF assms(1), of "''.''"] a1 by simp
  have o2: "lex_ok s2" using acceptDigits_ok [OF o1] a2 by simp
  from assms(2) a1 a2 o1 o2 show ?thesis
    by (auto simp: readNumber_fraction_def split: if_splits bool.splits
             dest: readNumber_exponent_ok expectedDigit_ok)
qed

lemma readNumber_ok:
  assumes "lex_ok s" and "readNumber (advance 1 1 s) = Some (te, s')"
  shows "lex_ok s'"
proof -
  have r: "retreat (Suc 0) (advance (Suc 0) 1 s) = s" using retreat_advance [of "Suc 0" s] by simp
  obtain b1 s1 where a1: "acceptByte ''-'' s = (b1, s1)" by (cases "acceptByte ''-'' s")
  obtain b2 s2 where a2: "acceptByte ''0'' s1 = (b2, s2)" by (cases "acceptByte ''0'' s1")
  obtain n s3 where a3: "acceptDigits s2 = (n, s3)" by (cases "acceptDigits s2")
  have o1: "lex_ok s1" using acceptByte_ok [OF assms(1), of "''-''"] a1 by simp
  have o2: "lex_ok s2" using acceptByte_ok [OF o1, of "''0''"] a2 by simp
  have o3: "lex_ok s3" using acceptDigits_ok [OF o2] a3 by simp
  have bk: "retreat n s3 = s2" using acceptDigits_retreat [of s2] a3 by simp
  have e: "readNumber (advance 1 1 s) =
    (if b2 then
       (if n \<noteq> 0 then
          fail s2 (''Invalid number, unexpected digit after 0: '' @ describeNext s2 @ ''.'')
        else readNumber_fraction s3)
     else (if n = 0 then expectedDigit s3 else readNumber_fraction s3))"
    by (simp add: readNumber_def Let_def r a1 a2 a3 bk)
  from assms(2) o2 o3 show ?thesis
    unfolding e by (auto split: if_splits dest: readNumber_fraction_ok expectedDigit_ok fail_ok)
qed

text \<open>Strings and block strings.\<close>

lemma nextRune_ok:
  assumes "lex_ok s" and "endB s < length (input s)"
  shows "lex_ok (advance (snd (nextRune s (input s ! endB s))) 1 s)"
proof (cases "127 \<le> u8 (input s ! endB s)")
  case True
  with lex_ok_advance_decode [OF assms] show ?thesis by (simp add: nextRune_def peek_def)
next
  case False
  with lex_ok_advance_ascii [OF assms] show ?thesis by (simp add: nextRune_def)
qed

lemma simpleEscape_ascii: "simpleEscape c = Some d \<Longrightarrow> u8 c < 0x80"
  by (auto simp: simpleEscape_def split: if_splits)

lemma escapeError_ok:
  assumes "lex_ok s" and "endB s < length (input s)" and "input s ! endB s = BACKSLASH"
    and "escapeError s a = Some (te, s')"
  shows "lex_ok s'"
proof -
  from assms(3) have "u8 (input s ! endB s) < 0x80" by simp
  from lex_ok_advance_ascii [OF assms(1,2) this] assms(4) show ?thesis
    by (auto simp: escapeError_def dest: fail_ok)
qed

lemma take_2_drop:
  "n + 1 < length xs \<Longrightarrow> take 2 (drop n xs) = [xs ! n, xs ! (n + 1)]"
  by (simp add: take_Suc_conv_app_nth numeral_2_eq_2)

lemma take_6_drop:
  "n + 6 \<le> length xs \<Longrightarrow> take 6 (drop n xs) = [xs ! n, xs ! (n + 1)] @ take 4 (drop (n + 2) xs)"
proof -
  assume a: "n + 6 \<le> length xs"
  have "take 6 (drop n xs) = take 2 (drop n xs) @ take 4 (drop 2 (drop n xs))"
    using take_add [of 2 4 "drop n xs"] by simp
  with a show ?thesis by (simp add: take_2_drop add.commute)
qed

lemma readString_body_ok:
  assumes "lex_ok s" and "endB s < length (input s)"
  shows "readString_body s buf = Continue (s', buf') \<Longrightarrow> lex_ok s'"
    and "readString_body s buf = Return (Some (te, s')) \<Longrightarrow> lex_ok s'"
proof -
  let ?r = "input s ! endB s"
  have one: "u8 ?r < 0x80 \<Longrightarrow> lex_ok (advance 1 1 s)"
    by (rule lex_ok_advance_ascii [OF assms])
  have esc: "\<And>a. ?r = BACKSLASH \<Longrightarrow> escapeError s a = Some (te, s') \<Longrightarrow> lex_ok s'"
    by (rule escapeError_ok [OF assms])
  have two: "lex_ok (advance 2 2 s)"
    if "?r = BACKSLASH" and "\<not> length (input s) \<le> endB s + 1"
      and "simpleEscape (input s ! (endB s + 1)) = Some d" for d
  proof -
    from that(2) have "take 2 (drop (endB s) (input s)) = [?r, input s ! (endB s + 1)]"
      by (simp add: take_2_drop)
    with that(1) simpleEscape_ascii [OF that(3)]
    have "\<forall>c\<in>set (take 2 (drop (endB s) (input s))). u8 c < 0x80" by simp
    from lex_ok_advance_take [OF assms(1) _ this] that(2) show ?thesis by simp
  qed
  have six: "lex_ok (advance 6 6 s)"
    if "?r = BACKSLASH" and "\<not> length (input s) \<le> endB s + 6"
      and "input s ! (endB s + 1) = CHR ''u''"
      and "unhex (take 4 (drop (endB s + 2) (input s))) = (x, True)" for x
  proof -
    from that(2) have "take 6 (drop (endB s) (input s))
        = [?r, input s ! (endB s + 1)] @ take 4 (drop (endB s + 2) (input s))"
      by (simp add: take_6_drop)
    with that(1,3) unhex_ascii [OF that(4)]
    have "\<forall>c\<in>set (take 6 (drop (endB s) (input s))). u8 c < 0x80" by auto
    from lex_ok_advance_take [OF assms(1) _ this] that(2) show ?thesis by simp
  qed
  have nr: "lex_ok (advance (snd (nextRune s ?r)) 1 s)" by (rule nextRune_ok [OF assms])
  show "readString_body s buf = Continue (s', buf') \<Longrightarrow> lex_ok s'"
    using two six nr
    by (auto simp: readString_body_def Let_def split: if_splits option.splits prod.splits)
  show "readString_body s buf = Return (Some (te, s')) \<Longrightarrow> lex_ok s'"
    using assms(1) one esc
    by (auto simp: readString_body_def Let_def invalidInString_def makeToken_def
             split: if_splits option.splits prod.splits dest: fail_ok)
qed

lemma readString_loop_ok:
  "lex_ok s \<Longrightarrow> readString_loop s buf = Some (te, s') \<Longrightarrow> lex_ok s'"
proof (induction s buf rule: readString_loop.induct)
  case (1 s buf)
  show ?case
  proof (cases "endB s < length (input s)")
    case False
    with "1.prems" show ?thesis
      by (auto simp: readString_loop.simps [of s buf] dest: fail_ok)
  next
    case True
    show ?thesis
    proof (cases "readString_body s buf")
      case (Continue p)
      obtain s1 buf1 where p: "p = (s1, buf1)" by (cases p)
      from True Continue p "1.prems" have "readString_loop s1 buf1 = Some (te, s')"
        by (simp add: readString_loop.simps [of s buf])
      moreover from readString_body_ok(1) [OF "1.prems"(1) True] Continue p have "lex_ok s1" by simp
      ultimately show ?thesis using "1.IH" [OF True Continue p [symmetric]] by simp
    next
      case (Return res)
      with True "1.prems" have "readString_body s buf = Return (Some (te, s'))"
        by (simp add: readString_loop.simps [of s buf])
      from readString_body_ok(2) [OF "1.prems"(1) True this] show ?thesis .
    qed
  qed
qed

lemma readString_ok:
  assumes "lex_ok b" and "start b = endB b" and "startRunes b = endRunes b"
    and "endB b < length (input b)" and "input b ! endB b = DQUOTE"
    and "readString (advance 1 1 b) = Some (te, s')"
  shows "lex_ok s'"
proof -
  let ?a = "advance 1 1 b"
  from assms(5) have "u8 (input b ! endB b) < 0x80" by simp
  from lex_ok_advance_ascii [OF assms(1,4) this] have a: "lex_ok ?a" .
  have "?a\<lparr>start := start ?a + 1, startRunes := startRunes ?a + 1\<rparr>
      = ?a\<lparr>start := endB ?a, startRunes := endRunes ?a\<rparr>"
    using assms(2,3) by simp
  with lex_ok_begin [OF a] assms(6) show ?thesis
    by (auto simp: readString_def dest: readString_loop_ok)
qed

lemma readBlockString_body_ok:
  assumes "lex_ok s" and "endB s < length (input s)"
  shows "readBlockString_body f s buf = Continue (s', buf') \<Longrightarrow> lex_ok s'"
    and "readBlockString_body f s buf = Return (Some (te, s')) \<Longrightarrow> lex_ok s'"
proof -
  let ?r = "input s ! endB s"
  have one: "u8 ?r < 0x80 \<Longrightarrow> lex_ok (advance 1 1 s)"
    by (rule lex_ok_advance_ascii [OF assms])
  have three: "lex_ok (advance 3 3 s)"
    if "endB s + 3 \<le> length (input s)" and "take 3 (drop (endB s) (input s)) = [DQUOTE, DQUOTE, DQUOTE]"
    using lex_ok_advance_take [OF assms(1), of 3] that by simp
  have four: "lex_ok (advance 4 4 s)"
    if "endB s + 4 \<le> length (input s)"
      and "take 4 (drop (endB s) (input s)) = [BACKSLASH, DQUOTE, DQUOTE, DQUOTE]"
    using lex_ok_advance_take [OF assms(1), of 4] that by simp
  have crlf: "lex_ok (advance 1 1 (advance 1 1 s))"
    if "?r = CR" and "index (input s) (endB s + 1) = Some LF"
  proof -
    from that(1) one have a: "lex_ok (advance 1 1 s)" by simp
    from that(2) have "endB (advance 1 1 s) < length (input (advance 1 1 s))"
      and "u8 (input (advance 1 1 s) ! endB (advance 1 1 s)) < 0x80"
      by (auto simp: index_def split: if_splits)
    from lex_ok_advance_ascii [OF a this] show ?thesis .
  qed
  have nr: "lex_ok (advance (snd (nextRune s ?r)) 1 s)" by (rule nextRune_ok [OF assms])
  show "readBlockString_body f s buf = Continue (s', buf') \<Longrightarrow> lex_ok s'"
    using four crlf nr one
    by (auto simp: readBlockString_body_def Let_def split: if_splits option.splits prod.splits)
  show "readBlockString_body f s buf = Return (Some (te, s')) \<Longrightarrow> lex_ok s'"
    using assms(1) three
    by (auto simp: readBlockString_body_def Let_def invalidInString_def makeToken_def
             split: if_splits option.splits prod.splits dest: fail_ok)
qed

lemma readBlockString_loop_ok:
  "lex_ok s \<Longrightarrow> readBlockString_loop f s buf = Some (te, s') \<Longrightarrow> lex_ok s'"
proof (induction f s buf rule: readBlockString_loop.induct)
  case (1 f s buf)
  show ?case
  proof (cases "endB s < length (input s)")
    case False
    with "1.prems" show ?thesis
      by (auto simp: readBlockString_loop.simps [of f s buf] dest: fail_ok)
  next
    case True
    show ?thesis
    proof (cases "readBlockString_body f s buf")
      case (Continue p)
      obtain s1 buf1 where p: "p = (s1, buf1)" by (cases p)
      from True Continue p "1.prems" have "readBlockString_loop f s1 buf1 = Some (te, s')"
        by (simp add: readBlockString_loop.simps [of f s buf])
      moreover from readBlockString_body_ok(1) [OF "1.prems"(1) True] Continue p have "lex_ok s1"
        by simp
      ultimately show ?thesis using "1.IH" [OF True Continue p [symmetric]] by simp
    next
      case (Return res)
      with True "1.prems" have "readBlockString_body f s buf = Return (Some (te, s'))"
        by (simp add: readBlockString_loop.simps [of f s buf])
      from readBlockString_body_ok(2) [OF "1.prems"(1) True this] show ?thesis .
    qed
  qed
qed

lemma readBlockString_ok:
  assumes "lex_ok b" and "start b = endB b" and "startRunes b = endRunes b"
    and "endB b + 2 < length (input b)"
    and "take 3 (drop (endB b) (input b)) = [DQUOTE, DQUOTE, DQUOTE]"
    and "readBlockString f (advance 1 1 b) = Some (te, s')"
  shows "lex_ok s'"
proof -
  let ?a = "advance 3 3 b"
  have a: "lex_ok ?a"
    using lex_ok_advance_take [OF assms(1), of 3] assms(4,5) by simp
  have "advance 2 2 ((advance 1 1 b)\<lparr>start := start (advance 1 1 b) + 3,
          startRunes := startRunes (advance 1 1 b) + 3\<rparr>)
      = ?a\<lparr>start := endB ?a, startRunes := endRunes ?a\<rparr>"
    using assms(2,3) by (simp add: advance_def)
  with lex_ok_begin [OF a] assms(6) show ?thesis
    by (auto simp: readBlockString_def dest: readBlockString_loop_ok)
qed

text \<open>The dispatch and the calls.\<close>

lemma nameStart_ascii: "nameStart r \<Longrightarrow> u8 r < 0x80"
  by (auto simp: nameStart_def)

lemma unexpectedCharacter_ok:
  assumes "lex_ok b" and "unexpectedCharacter r (advance 1 1 b) = Some (te, s')"
  shows "lex_ok s'"
proof -
  have "retreat 1 (advance 1 1 b) = b" using retreat_advance [of 1 b] by simp
  with assms show ?thesis
    by (auto simp: unexpectedCharacter_def Let_def split: if_splits dest: fail_ok)
qed

lemma dispatch_ok:
  assumes "lex_ok b" and "start b = endB b" and "startRunes b = endRunes b"
    and "endB b < length (input b)" and "r = input b ! endB b"
    and "dispatch f r (advance 1 1 b) = Some (te, s')"
  shows "lex_ok s'"
proof -
  let ?a = "advance 1 1 b"
  have asc: "lex_ok ?a" if "u8 r < 0x80"
    using lex_ok_advance_ascii [OF assms(1,4)] that assms(5) by simp
  have em: "lex_ok s'" if "u8 r < 0x80" and "emit ?a k = Some (te, s')" for k
    using emit_ok [OF asc [OF that(1)] that(2)] .
  have un: "unexpectedCharacter r ?a = Some (te, s') \<Longrightarrow> lex_ok s'"
    by (rule unexpectedCharacter_ok [OF assms(1)])
  have spread: "lex_ok s'"
    if "start ?a + 2 < length (input ?a)" and "take 3 (drop (start ?a) (input ?a)) = ''...''"
      and "emit (advance 2 2 ?a) Spread = Some (te, s')"
  proof -
    have "advance 2 2 ?a = advance 3 3 b" using advance_advance [of 2 1 b] by simp
    moreover have "lex_ok (advance 3 3 b)"
      using lex_ok_advance_take [OF assms(1), of 3] that(1,2) assms(2) by simp
    ultimately show ?thesis using emit_ok that(3) by metis
  qed
  have name: "lex_ok s'" if "nameStart r" and "readName ?a = Some (te, s')"
    using readName_ok [OF asc [OF nameStart_ascii [OF that(1)]] that(2)] .
  have number: "readNumber ?a = Some (te, s') \<Longrightarrow> lex_ok s'"
    by (rule readNumber_ok [OF assms(1)])
  have str: "lex_ok s'" if "r = DQUOTE" and "readString ?a = Some (te, s')"
    using readString_ok [OF assms(1-4) _ that(2)] that(1) assms(5) by simp
  have block: "lex_ok s'"
    if "start ?a + 2 < length (input ?a)"
      and "take 3 (drop (start ?a) (input ?a)) = [DQUOTE, DQUOTE, DQUOTE]"
      and "readBlockString f ?a = Some (te, s')"
    using readBlockString_ok [OF assms(1-3) _ _ that(3)] that(1,2) assms(2) by simp
  from assms(6) show ?thesis
    unfolding dispatch_def
    by (auto split: if_splits intro: em un spread name number str block)
qed

lemma setLast_ok: "setLast res = Some (te, s') \<Longrightarrow> (\<And>s1. res = Some (te, s1) \<Longrightarrow> lex_ok s1) \<Longrightarrow> lex_ok s'"
  by (cases te) (auto dest!: setLast_Some)

lemma ReadToken_ok:
  "lex_ok s \<Longrightarrow> ReadToken f s = Some (te, s') \<Longrightarrow> lex_ok s'"
proof (induction f s arbitrary: te s' rule: ReadToken.induct)
  case (1 f s)
  let ?b = "beginToken s"
  let ?r = "input ?b ! start ?b"
  have ob: "lex_ok ?b" by (rule beginToken_ok [OF "1.prems"(1)])
  note st = beginToken_start [of s]
  show ?case
  proof (cases "peeked s")
    case True
    with "1.prems" show ?thesis
      by (auto simp: ReadToken.simps [of f s] elim!: setLast_ok)
  next
    case False
    note np = this
    show ?thesis
    proof (cases "length (input ?b) \<le> endB ?b")
      case True
      with np "1.prems"(2) have "setLast (emit ?b EOF) = Some (te, s')"
        by (simp add: ReadToken.simps [of f s])
      then show ?thesis using ob by (auto elim!: setLast_ok dest: emit_ok)
    next
      case False
      note nonempty = this
      then have lt: "endB ?b < length (input ?b)" by simp
      show ?thesis
      proof (cases "?r = CHR ''!''")
        case True
        with np nonempty "1.prems"(2) have e: "setLast (emit (advance 1 1 ?b) Bang) = Some (te, s')"
          by (simp add: ReadToken.simps [of f s])
        from True st have "u8 (input ?b ! endB ?b) < 0x80" by simp
        from lex_ok_advance_ascii [OF ob lt this] e show ?thesis
          by (auto elim!: setLast_ok dest: emit_ok)
      next
        case False
        note notbang = this
        show ?thesis
        proof (cases "?r = CHR ''#''")
          case True
          with np nonempty notbang "1.prems"(2) obtain c s1 where
            c: "readComment (advance 1 1 ?b) = Some (c, s1)"
            and r: "setLast (ReadToken f s1) = Some (te, s')"
            by (auto simp: ReadToken.simps [of f s] split: option.splits)
          from True st have "u8 (input ?b ! endB ?b) < 0x80" by simp
          from readComment_ok [OF lex_ok_advance_ascii [OF ob lt this] c] have o1: "lex_ok s1" .
          from r show ?thesis
            by (rule setLast_ok) (rule "1.IH" [OF np nonempty notbang True c refl o1])
        next
          case False
          with np nonempty notbang "1.prems"(2)
          have d: "setLast (dispatch f ?r (advance 1 1 ?b)) = Some (te, s')"
            by (simp add: ReadToken.simps [of f s])
          from d show ?thesis
          proof (rule setLast_ok)
            fix s1 assume a: "dispatch f ?r (advance 1 1 ?b) = Some (te, s1)"
            have "?r = input ?b ! endB ?b" by (simp add: st)
            from dispatch_ok [OF ob st(1) st(2) lt this a] show "lex_ok s1" .
          qed
        qed
      qed
    qed
  qed
qed

lemma PeekToken_ok:
  assumes "lex_ok s" and "PeekToken f s = Some (t, s')"
  shows "lex_ok s'"
proof (cases "peeked s")
  case True
  with assms show ?thesis by (simp add: PeekToken_def)
next
  case False
  with assms(2) obtain e s1 where r: "ReadToken f s = Some ((t, e), s1)"
    and s': "s' = s1\<lparr>peekToken := t, peekError := e, peeked := True\<rparr>"
    by (auto simp: PeekToken_def split: option.splits)
  from ReadToken_ok [OF assms(1) r] s' show ?thesis by simp
qed

lemma steps_ok: "steps f s0 s \<Longrightarrow> lex_ok s0 \<Longrightarrow> lex_ok s"
  by (induction rule: steps.induct) (auto intro: ReadToken_ok PeekToken_ok)

lemma steps_input: "steps f s0 s \<Longrightarrow> input s = input s0"
proof (induction rule: steps.induct)
  case here
  show ?case by simp
next
  case (read s r s')
  show ?case
  proof (cases "peeked s")
    case True
    with ReadToken_peeked [OF True, of f] read show ?thesis by auto
  next
    case False
    with ReadToken_scan [OF False, of f "fst r" "snd r" s'] read show ?thesis
      by (simp add: cache_def)
  qed
next
  case (peek s t s')
  show ?case
  proof (cases "peeked s")
    case True
    with peek show ?thesis by (simp add: PeekToken_def)
  next
    case False
    with peek(2) obtain e s1 where r: "ReadToken f s = Some ((t, e), s1)"
      and s': "s' = s1\<lparr>peekToken := t, peekError := e, peeked := True\<rparr>"
      by (auto simp: PeekToken_def split: option.splits)
    from ReadToken_scan [OF False r] s' peek(3) show ?thesis by (simp add: cache_def)
  qed
qed

lemma run_utf8:
  "ValidString utf8_input"
  "ReadToken id (New utf8_input) = Some ((utf8_string, None), utf8_after_string)"
  "ReadToken id utf8_after_string = Some ((utf8_x, None), utf8_after_x)"
  by code_simp+

text \<open>
  Claim C4. Over a well-formed UTF-8 input, after any calls of \<^verbatim>\<open>ReadToken\<close> and
  \<^verbatim>\<open>PeekToken\<close>, at each return of \<^verbatim>\<open>ReadToken\<close> the lexer has
  \<open>startRunes \<le> endRunes\<close>, \<open>startRunes\<close> is the number of code points of the input
  before the byte offset \<open>start\<close>, and \<open>endRunes\<close> the number of those before the byte
  offset \<open>end\<close>; the whitespace and the byte order mark, the punctuators, names, numbers,
  strings with their escapes and block strings all keep it so.
\<close>

theorem C4_rune_offsets:
  assumes "ValidString inp" and "reachable f inp s" and "ReadToken f s = Some (r, s')"
  shows "input s' = inp
    \<and> start s' \<le> endB s' \<and> endB s' \<le> length inp
    \<and> startRunes s' \<le> endRunes s'
    \<and> startRunes s' = int (RuneCountInString (take (start s') inp))
    \<and> endRunes s' = int (RuneCountInString (take (endB s') inp))"
proof -
  from assms(2) have st: "steps f (New inp) s" by (simp add: reachable_def)
  from steps_ok [OF st lex_ok_New [OF assms(1)]] have "lex_ok s" .
  from ReadToken_ok [OF this assms(3)] have ok: "lex_ok s'" .
  from steps_input [OF steps.read [OF st assms(3)]] have i: "input s' = inp" by (simp add: New_def)
  from lex_ok_runes [OF ok] ok i show ?thesis by (simp add: lex_ok_def pos_ok_def)
qed

theorem C4_rune_offsets_witness:
  "ValidString utf8_input \<and> reachable id utf8_input utf8_after_string
   \<and> ReadToken id utf8_after_string = Some ((utf8_x, None), utf8_after_x)
   \<and> start utf8_after_x = 9 \<and> endB utf8_after_x = 10
   \<and> startRunes utf8_after_x = 7 \<and> endRunes utf8_after_x = 8
   \<and> startRunes utf8_after_x \<le> endRunes utf8_after_x
   \<and> startRunes utf8_after_x = int (RuneCountInString (take (start utf8_after_x) utf8_input))
   \<and> endRunes utf8_after_x = int (RuneCountInString (take (endB utf8_after_x) utf8_input))"
proof -
  have r: "reachable id utf8_input utf8_after_string"
    by (rule reachable_read [OF reachable_New run_utf8(2)])
  have v: "start utf8_after_x = 9" "endB utf8_after_x = 10" "startRunes utf8_after_x = 7"
    "endRunes utf8_after_x = 8"
    by (simp_all add: utf8_after_x_def)
  from C4_rune_offsets [OF run_utf8(1) r run_utf8(3)]
  have "startRunes utf8_after_x \<le> endRunes utf8_after_x"
    and "startRunes utf8_after_x = int (RuneCountInString (take (start utf8_after_x) utf8_input))"
    and "endRunes utf8_after_x = int (RuneCountInString (take (endB utf8_after_x) utf8_input))"
    by blast+
  with run_utf8(1,3) r v show ?thesis by blast
qed

section \<open>Comments\<close>

lemma advance_add: "advance a m (advance b n s) = advance (a + b) (m + n) s"
  by (simp add: advance_def add.commute add.left_commute)

lemma u8_TAB: "u8 c = 9 \<longleftrightarrow> c = TAB"
proof
  assume "u8 c = 9"
  then have "u8 c = u8 TAB" by simp
  then show "c = TAB" by (simp only: of_char_eq_iff)
qed simp

lemma decode_not_comment_byte:
  "\<not> comment_byte c0 \<Longrightarrow> \<not> (0x1f < fst (DecodeRuneInString (c0 # cs)) \<or> fst (DecodeRuneInString (c0 # cs)) = 0x09)"
  using u8_TAB [of c0] by (auto simp: comment_byte_def)

lemma decode_comment_byte:
  assumes "comment_byte c0"
  shows "0x1f < fst (DecodeRuneInString (c0 # cs)) \<or> fst (DecodeRuneInString (c0 # cs)) = 0x09"
proof (cases "u8 c0 < 0x80")
  case True
  with assms show ?thesis by (auto simp: comment_byte_def)
next
  case False
  with decode_rune_ge [of c0 cs] show ?thesis by simp
qed

text \<open>The bytes of a rune after its first are not below 0x80.\<close>

lemma decode_tail_bytes:
  assumes "DecodeRuneInString (c0 # cs) = (r, w)"
  shows "w \<le> Suc (length cs) \<and> (\<forall>c\<in>set (take (w - 1) cs). 0x80 \<le> u8 c)"
proof (cases cs)
  case Nil
  with assms show ?thesis by (auto simp: Let_def split: if_splits)
next
  case (Cons c1 cs1)
  note c1 = this
  show ?thesis
  proof (cases cs1)
    case Nil
    with assms c1 show ?thesis by (auto simp: Let_def split: if_splits)
  next
    case (Cons c2 cs2)
    note c2 = this
    show ?thesis
    proof (cases cs2)
      case Nil
      with assms c1 c2 show ?thesis by (auto simp: Let_def split: if_splits)
    next
      case (Cons c3 cs3)
      with assms c1 c2 show ?thesis by (auto simp: Let_def split: if_splits)
    qed
  qed
qed

lemma decode_comment_bytes:
  assumes "xs \<noteq> []" and "comment_byte (hd xs)"
  shows "snd (DecodeRuneInString xs) \<le> length xs
    \<and> (\<forall>c\<in>set (take (snd (DecodeRuneInString xs)) xs). comment_byte c)"
proof -
  from assms(1) obtain c0 cs where xs: "xs = c0 # cs" by (cases xs) auto
  obtain r w where d: "DecodeRuneInString (c0 # cs) = (r, w)" by (cases "DecodeRuneInString (c0 # cs)")
  from DecodeRuneInString_width_pos [of "c0 # cs"] d have w: "0 < w" by simp
  then have t: "take w (c0 # cs) = c0 # take (w - 1) cs" by (cases w) auto
  from decode_tail_bytes [OF d] have "w \<le> Suc (length cs)" "\<forall>c\<in>set (take (w - 1) cs). 0x80 \<le> u8 c"
    by simp_all
  with assms(2) xs d t show ?thesis by (auto simp: comment_byte_def)
qed

lemma decode_prefix_width:
  assumes "xs = body @ rest" and "body \<noteq> []" and "snd (DecodeRuneInString xs) \<le> length body"
  shows "snd (DecodeRuneInString body) = snd (DecodeRuneInString xs)"
proof -
  obtain r w where d: "DecodeRuneInString xs = (r, w)" by (cases "DecodeRuneInString xs")
  obtain r' w' where d': "DecodeRuneInString body = (r', w')" by (cases "DecodeRuneInString body")
  from assms(1,2) have ne: "xs \<noteq> []" by simp
  show ?thesis
  proof (cases "r' = RuneError \<and> w' = 1")
    case False
    from decode_append [OF d' False assms(2), of rest] assms(1) d d' show ?thesis by simp
  next
    case True
    note bad' = this
    show ?thesis
    proof (cases "r = RuneError \<and> w = 1")
      case True
      with bad' d d' show ?thesis by simp
    next
      case False
      from decode_local [OF d False ne, of "drop w body"] assms(1,3) d
      have "DecodeRuneInString (take w body @ drop w body) = (r, w)" by simp
      with d' False bad' show ?thesis by simp
    qed
  qed
qed

text \<open>
  The loop of \<^verbatim>\<open>readComment\<close> moves the cursor over the body of the comment, all of it
  and nothing else, and counts its runes.
\<close>

lemma readComment_loop_run:
  "readComment_loop s =
    advance (length (comment_body s)) (int (RuneCountInString (comment_body s))) s"
proof (induction s rule: readComment_loop.induct)
  case (1 s)
  let ?xs = "drop (endB s) (input s)"
  show ?case
  proof (cases "endB s < length (input s)")
    case False
    then show ?thesis
      by (simp add: readComment_loop.simps [of s] comment_body_def advance_0)
  next
    case True
    then have ne: "?xs \<noteq> []" by simp
    then obtain c0 cs where xs: "?xs = c0 # cs" by (cases ?xs) auto
    show ?thesis
    proof (cases "comment_byte c0")
      case False
      with decode_not_comment_byte [OF False, of cs] xs True show ?thesis
        by (simp add: readComment_loop.simps [of s] comment_body_def peek_def advance_0)
    next
      case cb: True
      let ?w = "snd (peek s)"
      let ?s1 = "advance ?w 1 s"
      let ?body1 = "comment_body ?s1"
      from decode_comment_byte [OF cb, of cs] xs True
      have go: "endB s < length (input s) \<and> (0x1f < fst (peek s) \<or> fst (peek s) = 0x09)"
        by (simp add: peek_def)
      from decode_comment_bytes [OF ne] cb xs
      have w: "?w \<le> length ?xs" "\<forall>c\<in>set (take ?w ?xs). comment_byte c"
        by (simp_all add: peek_def)
      have "takeWhile comment_byte ?xs = takeWhile comment_byte (take ?w ?xs @ drop ?w ?xs)"
        by (simp only: append_take_drop_id)
      also have "\<dots> = take ?w ?xs @ takeWhile comment_byte (drop ?w ?xs)"
        using w(2) by (intro takeWhile_append2) simp
      finally have body: "comment_body s = take ?w ?xs @ ?body1"
        by (simp add: comment_body_def add.commute)
      from DecodeRuneInString_width_pos [OF ne] have wpos: "0 < ?w" by (simp add: peek_def)
      from w(1) have lt: "length (take ?w ?xs) = ?w" by simp
      from body wpos lt have bne: "comment_body s \<noteq> []" by auto
      have "\<exists>rest. ?xs = comment_body s @ rest"
        unfolding comment_body_def by (metis takeWhile_dropWhile_id)
      then obtain rest where rest: "?xs = comment_body s @ rest" ..
      have "?w \<le> length (comment_body s)"
        using arg_cong [OF body, of length] lt by simp
      then have dw: "snd (DecodeRuneInString (comment_body s)) = ?w"
        using decode_prefix_width [OF rest bne] by (simp add: peek_def)
      have dr: "drop ?w (comment_body s) = ?body1"
        using arg_cong [OF body, of "drop ?w"] lt by simp
      have "RuneCountInString (comment_body s)
          = Suc (RuneCountInString (drop (snd (DecodeRuneInString (comment_body s))) (comment_body s)))"
        using bne by (subst RuneCountInString.simps) simp
      then have rc: "RuneCountInString (comment_body s) = Suc (RuneCountInString ?body1)"
        unfolding dw dr .
      have len: "length (comment_body s) = ?w + length ?body1"
        using body lt by (metis length_append)
      from go "1.IH" [OF go] show ?thesis
        by (simp add: readComment_loop.simps [of s] advance_add rc len add.commute)
    qed
  qed
qed

lemma setLast_setLast: "setLast (setLast res) = setLast res"
  by (auto simp: setLast_def split: option.splits)

lemma setLast_ReadToken: "setLast (ReadToken f s) = ReadToken f s"
  by (subst (1 2) ReadToken.simps) (auto simp: setLast_setLast setLast_def split: option.splits)

lemma comment_body_length: "endB s + length (comment_body s) \<le> max (endB s) (length (input s))"
  using length_takeWhile_le [of comment_byte "drop (endB s) (input s)"]
  by (simp add: comment_body_def)

lemma ReadToken_at_comment:
  assumes "\<not> peeked s" and "endB (beginToken s) < length (input s)"
    and "input s ! endB (beginToken s) = CHR ''#''"
  shows "ReadToken f s = ReadToken f (skip_comment (beginToken s))"
proof -
  let ?b = "beginToken s"
  have inp: "input ?b = input s" using beginToken_cache [of s] by (simp add: cache_def)
  note st = beginToken_start [of s]
  have loop: "readComment_loop (advance 1 1 ?b) = skip_comment ?b"
    by (simp add: readComment_loop_run skip_comment_def Let_def advance_add add.commute)
  have bounds: "start (skip_comment ?b) \<le> endB (skip_comment ?b)
      \<and> endB (skip_comment ?b) \<le> length (input (skip_comment ?b))"
    using comment_body_length [of "advance 1 1 ?b"] assms(2) inp st
    by (simp add: skip_comment_def Let_def)
  then obtain c where "emit (skip_comment ?b) Comment = Some (c, skip_comment ?b)"
    by (simp add: emit_def makeToken_def slice_def)
  then have c: "readComment (advance 1 1 ?b) = Some (c, skip_comment ?b)"
    unfolding readComment_def loop .
  from assms inp st c have "ReadToken f s = setLast (ReadToken f (skip_comment ?b))"
    by (simp add: ReadToken.simps [of f s])
  then show ?thesis by (simp add: setLast_ReadToken)
qed

text \<open>
  Claim C8. \<^verbatim>\<open>ReadToken\<close> never returns a token of kind \<^verbatim>\<open>Comment\<close>, in any reachable
  state. In every state with an empty cache where the byte after the skipped whitespace
  is \<^verbatim>\<open>#\<close>, \<^verbatim>\<open>ReadToken\<close> returns what it returns with the cursor behind the \<^verbatim>\<open>#\<close> and the
  body of the comment: the token after the comment. On \<^verbatim>\<open># hi\<close>, a line feed and \<^verbatim>\<open>42\<close>
  the first token is the \<^verbatim>\<open>Int\<close> \<^verbatim>\<open>42\<close> at line 2, column 1.
\<close>

theorem C8_comments_are_skipped:
  assumes "reachable f inp s" and "ReadToken f s = Some ((t, e), s')"
  shows "Kind t \<noteq> Comment
    \<and> (\<forall>s0. \<not> peeked s0 \<and> endB (beginToken s0) < length (input s0)
            \<and> input s0 ! endB (beginToken s0) = CHR ''#''
          \<longrightarrow> ReadToken f s0 = ReadToken f (skip_comment (beginToken s0)))
    \<and> token_of (ReadToken f (New ''# hi\<newline>42'')) =
        Some \<lparr>Kind = IntT, Start = 5, End = 7, Value = ''42'', Line = 2, Column = 1\<rparr>"
proof -
  have "Kind t \<noteq> Comment"
  proof (cases "peeked s")
    case True
    with ReadToken_peeked [OF True, of f] assms(2) reachable_cache_ok [OF assms(1)]
    show ?thesis by (auto simp: cache_ok_def)
  next
    case False
    from ReadToken_scan [OF False assms(2)] show ?thesis by simp
  qed
  moreover have "token_of (ReadToken f (New ''# hi\<newline>42'')) =
        Some \<lparr>Kind = IntT, Start = 5, End = 7, Value = ''42'', Line = 2, Column = 1\<rparr>"
    by code_simp
  ultimately show ?thesis using ReadToken_at_comment [of _ f] by blast
qed

theorem C8_comments_are_skipped_witness:
  "reachable id tab_comment_input (New tab_comment_input)
   \<and> token_of (ReadToken id (New tab_comment_input)) = Some int_42
   \<and> Kind int_42 \<noteq> Comment
   \<and> \<not> peeked (New tab_comment_input)
   \<and> endB (beginToken (New tab_comment_input)) < length (input (New tab_comment_input))
   \<and> input (New tab_comment_input) ! endB (beginToken (New tab_comment_input)) = CHR ''#''
   \<and> skip_comment (beginToken (New tab_comment_input)) = (New tab_comment_input)\<lparr>endB := 4, endRunes := 4\<rparr>
   \<and> ReadToken id (New tab_comment_input) = ReadToken id ((New tab_comment_input)\<lparr>endB := 4, endRunes := 4\<rparr>)"
proof -
  obtain s' where r: "ReadToken id (New tab_comment_input) = Some ((int_42, None), s')"
  proof -
    have "map_option fst (ReadToken id (New tab_comment_input)) = Some (int_42, None)" by code_simp
    then show ?thesis using that by (cases "ReadToken id (New tab_comment_input)") auto
  qed
  have h: "\<not> peeked (New tab_comment_input)"
    "endB (beginToken (New tab_comment_input)) < length (input (New tab_comment_input))"
    "input (New tab_comment_input) ! endB (beginToken (New tab_comment_input)) = CHR ''#''"
    by code_simp+
  have k: "skip_comment (beginToken (New tab_comment_input)) = (New tab_comment_input)\<lparr>endB := 4, endRunes := 4\<rparr>"
    by code_simp
  from C8_comments_are_skipped [OF reachable_New r]
  have "Kind int_42 \<noteq> Comment"
    and "\<forall>s0. \<not> peeked s0 \<and> endB (beginToken s0) < length (input s0)
            \<and> input s0 ! endB (beginToken s0) = CHR ''#''
          \<longrightarrow> ReadToken id s0 = ReadToken id (skip_comment (beginToken s0))"
    by blast+
  with h have "Kind int_42 \<noteq> Comment"
    and "ReadToken id (New tab_comment_input) = ReadToken id (skip_comment (beginToken (New tab_comment_input)))"
    by blast+
  with h k r reachable_New [of id tab_comment_input] show ?thesis
    by (simp add: token_of_def)
qed

section \<open>The scenarios that the code does not follow\<close>

text \<open>
  Claim C1. A block string that meets the end of the input is reported as
  \<^verbatim>\<open>Unterminated string.\<close>, also when its last byte is a bare carriage return. The code
  reads the byte after a carriage return under the guard \<^verbatim>\<open>s.end+1 <= inputLen\<close>, which
  holds at the last byte too: on the four bytes \<^verbatim>\<open>"""\r\<close> the read is out of range and
  \<^verbatim>\<open>ReadToken\<close> panics instead of returning the error, whatever \<open>blockStringValue\<close> is.
\<close>

theorem C1_block_string_bare_CR_panics:
  \<open>ReadToken f (New (''"""'' @ [CR])) = None\<close>
  by code_simp

text \<open>
  Claim C2. On the twelve bytes \<^verbatim>\<open>"a\"b\u00e9"\<close> the first token is a \<^verbatim>\<open>String\<close> whose
  value is a, U+0022, b, U+00E9 and whose start is 0; its end is 12, the number of
  runes of the input with both quotes, and not 13.
\<close>

theorem C2_string_escapes:
  \<open>length escapes_input = 12 \<and>
   token_of (ReadToken f (New escapes_input)) =
     Some \<lparr>Kind = String, Start = 0, End = 12, Value = ''a"b'' @ EncodeRune 0xE9, Line = 1,
           Column = 2\<rparr> \<and>
   error_of (ReadToken f (New escapes_input)) = None\<close>
  by code_simp

theorem C2_end_13_counterexample:
  \<open>map_option End (token_of (ReadToken id (New escapes_input))) \<noteq> Some 13\<close>
  by code_simp

text \<open>
  Claim C3. A control byte that starts no token is reported with its code in
  hexadecimal. The code formats the byte with \<^verbatim>\<open>%04d\<close>, in decimal: for the byte 0x0B it
  says \<^verbatim>\<open>\u0011\<close> and not \<^verbatim>\<open>\u000B\<close>.
\<close>

theorem C3_invalid_character_in_decimal:
  \<open>token_of (ReadToken f (New [CHR 0x0B])) =
     Some \<lparr>Kind = Invalid, Start = 0, End = 0, Value = [], Line = 1, Column = 1\<rparr> \<and>
   error_of (ReadToken f (New [CHR 0x0B])) =
     Some (''Cannot contain the invalid character "'' @ [BACKSLASH] @ ''u0011"'')\<close>
  by code_simp

text \<open>
  Claim C6. A number whose first digit is 0, followed at once by another digit, is
  reported with the message \<^verbatim>\<open>Invalid number, unexpected digit after 0: "X".\<close> at the
  position of that digit; on \<^verbatim>\<open>0123\<close> the column is 2. The message is as claimed. The
  column is counted from \<^verbatim>\<open>lineStartRunes\<close>, which \<^verbatim>\<open>ws\<close> sets before it skips the line feed
  behind a carriage return: on \<^verbatim>\<open>0123\<close> behind a carriage return and a line feed the digit \<^verbatim>\<open>1\<close> is
  the second rune of line 2, and the code reports column 3.
\<close>

theorem C6_leading_zero_column_off:
  \<open>token_of (ReadToken f (New ([CR, LF] @ ''0123''))) =
     Some \<lparr>Kind = Invalid, Start = 2, End = 3, Value = [], Line = 2, Column = 3\<rparr>
   \<and> error_of (ReadToken f (New ([CR, LF] @ ''0123''))) =
     Some ''Invalid number, unexpected digit after 0: "1".''
   \<and> token_of (ReadToken f (New ''0123'')) =
     Some \<lparr>Kind = Invalid, Start = 0, End = 1, Value = [], Line = 1, Column = 2\<rparr>
   \<and> error_of (ReadToken f (New ''0123'')) =
     Some ''Invalid number, unexpected digit after 0: "1".''\<close>
  by code_simp

text \<open>
  Claim C7. Each of \<^verbatim>\<open>\n\<close>, \<^verbatim>\<open>\r\<close> and \<^verbatim>\<open>\r\n\<close> is one line break, and a token's line is
  one more than the line breaks before it; the second token of \<^verbatim>\<open>a\r\nb\<close> is at line 2,
  column 1. The code sets \<^verbatim>\<open>lineStartRunes\<close> before it skips the \<^verbatim>\<open>\n\<close> of \<^verbatim>\<open>\r\n\<close>, so that
  token is at column 2; and \<^verbatim>\<open>readBlockString\<close> counts no line, so the token after the
  block string \<^verbatim>\<open>"""\n"""\<close> is still at line 1.
\<close>

theorem C7_line_breaks_miscounted:
  \<open>second_token f (''a'' @ [CR, LF] @ ''b'') =
     Some \<lparr>Kind = Name, Start = 3, End = 4, Value = ''b'', Line = 2, Column = 2\<rparr> \<and>
   second_token f (''"""'' @ [LF] @ ''"""a'') =
     Some \<lparr>Kind = Name, Start = 7, End = 8, Value = ''a'', Line = 1, Column = 8\<rparr>\<close>
  by code_simp

end
